theory Spec2Isabelle
  imports Main "HOL-Library.Sublist"
begin

section \<open>Strings as the synchroniser uses them\<close>

text \<open>
  JavaScript strings are modelled as byte strings (\<^typ>\<open>string\<close>, the UTF-8 encoding).
  Every character the code inspects (the slash, the backslash, the dot and the letters of
  \<open>github.com\<close>) is ASCII, and no byte of a multi-byte UTF-8 sequence is ASCII, so the
  string operations below agree with the ones of the source on such strings.
\<close>

definition startsWith :: "string \<Rightarrow> string \<Rightarrow> bool" where
  \<comment> \<open>\<open>s.startsWith(p)\<close>\<close>
  "startsWith s p = (take (length p) s = p)"

fun split_on :: "char \<Rightarrow> string \<Rightarrow> string list" where
  \<comment> \<open>\<open>s.split(c)\<close> for a one-character separator: never the empty list\<close>
  "split_on c [] = [[]]"
| "split_on c (x # xs) =
     (if x = c then [] # split_on c xs
      else (case split_on c xs of
              [] \<Rightarrow> [[x]]
            | p # ps \<Rightarrow> (x # p) # ps))"

fun join_with :: "string \<Rightarrow> string list \<Rightarrow> string" where
  \<comment> \<open>\<open>parts.join(sep)\<close>\<close>
  "join_with sep [] = []"
| "join_with sep [p] = p"
| "join_with sep (p # q # ps) = p @ sep @ join_with sep (q # ps)"

fun replace_first :: "string \<Rightarrow> string \<Rightarrow> string" where
  \<comment> \<open>\<open>s.replace(pat, '')\<close> with a string pattern: the leftmost occurrence is removed\<close>
  "replace_first pat [] = []"
| "replace_first pat (x # xs) =
     (if startsWith (x # xs) pat then drop (length pat) (x # xs)
      else x # replace_first pat xs)"

definition slashes :: "string \<Rightarrow> string" where
  \<comment> \<open>\<open>s.replace(/\\/g, '/')\<close>: every backslash becomes a slash\<close>
  "slashes s = map (\<lambda>c. if c = CHR 0x5C then CHR ''/'' else c) s"

definition strip_trailing_slash :: "string \<Rightarrow> string" where
  \<comment> \<open>\<open>s.replace(/\/$/, '')\<close>: one slash at the very end is removed\<close>
  "strip_trailing_slash s = (if s \<noteq> [] \<and> last s = CHR ''/'' then butlast s else s)"

definition truthy :: "string option \<Rightarrow> bool" where
  \<comment> \<open>JavaScript truthiness of an optional string: \<open>undefined\<close> and \<open>''\<close> are falsy\<close>
  "truthy v = (case v of None \<Rightarrow> False | Some s \<Rightarrow> s \<noteq> [])"

definition or_else :: "string option \<Rightarrow> string \<Rightarrow> string" where
  \<comment> \<open>\<open>v || d\<close> on an optional string\<close>
  "or_else v d = (case v of None \<Rightarrow> d | Some s \<Rightarrow> if s = [] then d else s)"

section \<open>The two registry patterns\<close>

definition lower :: "char \<Rightarrow> char" where
  \<comment> \<open>the \<open>i\<close> flag folds the case of ASCII letters only\<close>
  "lower c =
     (case map_of (zip ''ABCDEFGHIJKLMNOPQRSTUVWXYZ'' ''abcdefghijklmnopqrstuvwxyz'') c of
        None \<Rightarrow> c
      | Some d \<Rightarrow> d)"

definition github_prefix :: "string \<Rightarrow> bool" where
  \<comment> \<open>the text at hand starts with \<open>github\.com\/\<close>, case ignored\<close>
  "github_prefix s = (map lower (take 11 s) = ''github.com/'')"

definition owner_and_rest :: "string \<Rightarrow> (string \<times> string) option" where
  \<comment> \<open>\<open>([^/]+)\/\<close>: a greedy, non-empty run without a slash, then a slash\<close>
  "owner_and_rest s =
     (let owner = takeWhile (\<lambda>c. c \<noteq> CHR ''/'') s;
          rest = dropWhile (\<lambda>c. c \<noteq> CHR ''/'') s
      in if owner = [] \<or> rest = [] then None else Some (owner, tl rest))"

definition assemble_match_here :: "string \<Rightarrow> (string \<times> string) option" where
  \<comment> \<open>\<open>/github\.com\/([^/]+)\/([^/]+)/i\<close> tried at the start of \<open>s\<close>\<close>
  "assemble_match_here s =
     (if github_prefix s then
        (case owner_and_rest (drop 11 s) of
           None \<Rightarrow> None
         | Some (owner, rest) \<Rightarrow>
             (let repo = takeWhile (\<lambda>c. c \<noteq> CHR ''/'') rest
              in if repo = [] then None else Some (owner, repo)))
      else None)"

definition reconcile_match_here :: "string \<Rightarrow> (string \<times> string) option" where
  \<comment> \<open>\<open>/github\.com\/([^/]+)\/([^/.]+)(?:\.git)?/i\<close> tried at the start of \<open>s\<close>;
      the optional group captures nothing and never makes a match fail\<close>
  "reconcile_match_here s =
     (if github_prefix s then
        (case owner_and_rest (drop 11 s) of
           None \<Rightarrow> None
         | Some (owner, rest) \<Rightarrow>
             (let repo = takeWhile (\<lambda>c. c \<noteq> CHR ''/'' \<and> c \<noteq> CHR ''.'') rest
              in if repo = [] then None else Some (owner, repo)))
      else None)"

fun regex_search :: "(string \<Rightarrow> 'a option) \<Rightarrow> string \<Rightarrow> 'a option" where
  \<comment> \<open>\<open>s.match(re)\<close> without the \<open>g\<close> flag: the leftmost position where the pattern matches\<close>
  "regex_search here [] = here []"
| "regex_search here (x # xs) =
     (case here (x # xs) of
        Some m \<Rightarrow> Some m
      | None \<Rightarrow> regex_search here xs)"

definition assemble_registry :: "string \<Rightarrow> (string \<times> string) option" where
  \<comment> \<open>owner and repo as \<open>assembleFromRemote\<close> reads them\<close>
  "assemble_registry registry = regex_search assemble_match_here registry"

definition reconcile_registry :: "string \<Rightarrow> (string \<times> string) option" where
  \<comment> \<open>owner and repo as \<open>checkForUpdates\<close> reads them\<close>
  "reconcile_registry registry = regex_search reconcile_match_here registry"

text \<open>
  The locators the assembler supports, in the words of its contract: somewhere in the
  locator stands the host \<open>github.com\<close> (in any case), a slash, a non-empty owner, a slash
  and a non-empty repository name, neither of the two with a slash in it.
\<close>

definition github_locator :: "string \<Rightarrow> bool" where
  "github_locator s =
     (\<exists>before host owner repo rest.
        s = before @ host @ ''/'' @ owner @ ''/'' @ repo @ rest \<and>
        map lower host = ''github.com'' \<and>
        owner \<noteq> [] \<and> CHR ''/'' \<notin> set owner \<and>
        repo \<noteq> [] \<and> CHR ''/'' \<notin> set repo)"

section \<open>Configuration, remote metadata and the network\<close>

record category_config =
  enabled :: bool
  ref :: "string option"
  exclude :: "string list option"
  include' :: "string list option"

text \<open>
  \<open>SkillConfig\<close>. The field \<open>skills\<close> is a JavaScript object: its entries are listed in
  the order of \<open>Object.entries\<close>, and \<open>config.skills[k]\<close> is \<^const>\<open>map_of\<close>. The type
  declares \<open>agents\<close> as an array, but \<open>writeToTargets\<close> reads it with \<open>||\<close>, as it does
  \<open>custom_overrides\<close>, so both may be absent from the loaded document.
\<close>

record skill_config =
  registry :: string
  agents :: "string list option"
  skills :: "(string \<times> category_config) list"
  custom_overrides :: "string list option"

record remote_category =
  version :: "string option"
  tag_prefix :: "string option"

record remote_metadata =
  categories :: "(string \<times> remote_category) list option"

record tree_item =
  path :: string
  type :: string

record skill_file =
  name :: string
  content :: string

record collected_skill =
  category :: string
  skill :: string
  files :: "skill_file list"

datatype update = Update (upd_category: string) (upd_from: string) (upd_to: string)

text \<open>
  What \<open>fetch\<close> gives for a URL: the promise rejects (or reading the body throws), the
  response is not \<open>ok\<close>, or the response is \<open>ok\<close> with a body. The network is a function
  of the URL, one field per kind of body the code reads.
\<close>

datatype 'a response = Rejected | Not_ok | Ok_body 'a

record network =
  repo_info :: "string \<Rightarrow> string option response"
  metadata_json :: "string \<Rightarrow> remote_metadata response"
  git_tree :: "string \<Rightarrow> tree_item list option response"
  raw_file :: "string \<Rightarrow> string response"
  npm_latest :: "string response"

text \<open>
  The requests a run makes, in order. A raw file request also records the category, the
  skill folder and the relative path its URL was built from.
\<close>

datatype request =
    Get_npm
  | Get_repo string
  | Get_metadata string
  | Get_tree string
  | Get_file string string string string

section \<open>The version reconciler\<close>

definition remote_lookup :: "remote_metadata \<Rightarrow> string \<Rightarrow> remote_category option" where
  \<comment> \<open>\<open>remoteMeta.categories?.[cat]\<close>\<close>
  "remote_lookup remoteMeta cat =
     (case categories remoteMeta of None \<Rightarrow> None | Some cs \<Rightarrow> map_of cs cat)"

fun collect_updates :: "remote_metadata \<Rightarrow> (string \<times> category_config) list \<Rightarrow> update list" where
  \<comment> \<open>the loop over \<open>Object.entries(config.skills)\<close> that fills \<open>updates\<close>\<close>
  "collect_updates remoteMeta [] = []"
| "collect_updates remoteMeta ((cat, catConfig) # entries) =
     (if \<not> enabled catConfig then collect_updates remoteMeta entries
      else
        (case remote_lookup remoteMeta cat of
           None \<Rightarrow> collect_updates remoteMeta entries
         | Some remoteCat \<Rightarrow>
             if \<not> truthy (version remoteCat) \<or> \<not> truthy (tag_prefix remoteCat)
             then collect_updates remoteMeta entries
             else
               (let latestTag = or_else (tag_prefix remoteCat) [] @ or_else (version remoteCat) [];
                    currentRef = or_else (ref catConfig) ''main''
                in if currentRef \<noteq> latestTag
                   then Update cat currentRef latestTag # collect_updates remoteMeta entries
                   else collect_updates remoteMeta entries)))"

fun apply_updates :: "update list \<Rightarrow> (string \<times> category_config) list \<Rightarrow> (string \<times> category_config) list" where
  \<comment> \<open>\<open>for (const u of updates) config.skills[u.category].ref = u.to\<close>\<close>
  "apply_updates [] entries = entries"
| "apply_updates (u # us) entries =
     apply_updates us
       (map (\<lambda>(k, c). if k = upd_category u then (k, c\<lparr>ref := Some (upd_to u)\<rparr>) else (k, c)) entries)"

record reconciled =
  config_after :: skill_config
  asked :: "request list"
  proposed :: "update list"
  saved :: "skill_config option"

definition checkForUpdates :: "network \<Rightarrow> bool option \<Rightarrow> bool \<Rightarrow> skill_config \<Rightarrow> reconciled" where
  \<comment> \<open>\<open>confirm\<close> is the answer to the one prompt (\<open>None\<close>: the prompt throws); \<open>writable\<close>
      says whether writing \<open>.skillsrc\<close> back succeeds. Every exception is caught and the
      configuration as it then is, is returned.\<close>
  "checkForUpdates net confirm writable config =
     (case reconcile_registry (registry config) of
        None \<Rightarrow> \<lparr>config_after = config, asked = [], proposed = [], saved = None\<rparr>
      | Some (owner, repo) \<Rightarrow>
          (let repoUrl = ''https://api.github.com/repos/'' @ owner @ ''/'' @ repo
           in case repo_info net repoUrl of
                Rejected \<Rightarrow> \<lparr>config_after = config, asked = [Get_repo repoUrl], proposed = [], saved = None\<rparr>
              | Not_ok \<Rightarrow> \<lparr>config_after = config, asked = [Get_repo repoUrl], proposed = [], saved = None\<rparr>
              | Ok_body default_branch \<Rightarrow>
                  (let defaultBranch = or_else default_branch ''main'';
                       metaUrl = ''https://raw.githubusercontent.com/'' @ owner @ ''/'' @ repo @ ''/''
                                 @ defaultBranch @ ''/skills/metadata.json'';
                       reqs = [Get_repo repoUrl, Get_metadata metaUrl]
                   in case metadata_json net metaUrl of
                        Rejected \<Rightarrow> \<lparr>config_after = config, asked = reqs, proposed = [], saved = None\<rparr>
                      | Not_ok \<Rightarrow> \<lparr>config_after = config, asked = reqs, proposed = [], saved = None\<rparr>
                      | Ok_body remoteMeta \<Rightarrow>
                          (let updates = collect_updates remoteMeta (skills config)
                           in if updates = [] then
                                \<lparr>config_after = config, asked = reqs, proposed = updates, saved = None\<rparr>
                              else
                                (case confirm of
                                   None \<Rightarrow> \<lparr>config_after = config, asked = reqs, proposed = updates, saved = None\<rparr>
                                 | Some updateAll \<Rightarrow>
                                     if updateAll then
                                       (let updated = config\<lparr>skills := apply_updates updates (skills config)\<rparr>
                                        in \<lparr>config_after = updated, asked = reqs, proposed = updates,
                                            saved = (if writable then Some updated else None)\<rparr>)
                                     else \<lparr>config_after = config, asked = reqs, proposed = updates, saved = None\<rparr>)))))"

section \<open>The skill assembler\<close>

fun uniq :: "'a list \<Rightarrow> 'a list \<Rightarrow> 'a list" where
  \<comment> \<open>\<open>Array.from(new Set(xs))\<close> is \<open>uniq [] xs\<close>: the first occurrence of each element, in order\<close>
  "uniq seen [] = []"
| "uniq seen (x # xs) = (if x \<in> set seen then uniq seen xs else x # uniq (x # seen) xs)"

definition third_part :: "string list \<Rightarrow> string option" where
  \<comment> \<open>\<open>parts[2]\<close>, which is \<open>undefined\<close> when there are fewer than three parts\<close>
  "third_part parts = (case drop 2 parts of [] \<Rightarrow> None | p # _ \<Rightarrow> Some p)"

definition skillFolders :: "string \<Rightarrow> tree_item list \<Rightarrow> string list" where
  "skillFolders cat allFiles =
     uniq []
       (filter (\<lambda>s. s \<noteq> [])
          (List.map_filter (\<lambda>f. third_part (split_on CHR ''/'' (path f)))
             (filter (\<lambda>f. startsWith (path f) (''skills/'' @ cat @ ''/'')) allFiles)))"

definition skill_prefix :: "string \<Rightarrow> string \<Rightarrow> string" where
  \<comment> \<open>the template \<open>skills/${category}/${skillFolderName}/\<close>\<close>
  "skill_prefix cat skillFolderName = ''skills/'' @ cat @ ''/'' @ skillFolderName @ ''/''"

definition isSupported :: "string \<Rightarrow> bool" where
  "isSupported relativePath =
     (relativePath = ''SKILL.md'' \<or>
      startsWith relativePath ''references/'' \<or>
      startsWith relativePath ''scripts/'' \<or>
      startsWith relativePath ''assets/'')"

fun fetch_files ::
  "network \<Rightarrow> string \<Rightarrow> string \<Rightarrow> string \<Rightarrow> tree_item list \<Rightarrow> skill_file list \<times> request list \<times> bool" where
  \<comment> \<open>the loop over \<open>skillSourceFiles\<close>: the files pushed to \<open>skillFiles\<close>, the requests made,
      and whether a \<open>fetch\<close> threw (which leaves the loop and the category)\<close>
  "fetch_files net rawBaseUrl cat skillFolderName [] = ([], [], False)"
| "fetch_files net rawBaseUrl cat skillFolderName (fileItem # rest) =
     (let relativePath = replace_first (skill_prefix cat skillFolderName) (path fileItem)
      in if isSupported relativePath \<and> type fileItem = ''blob'' then
           (let fileUrl = rawBaseUrl @ cat @ ''/'' @ skillFolderName @ ''/'' @ relativePath;
                req = Get_file cat skillFolderName relativePath fileUrl
            in case raw_file net fileUrl of
                 Rejected \<Rightarrow> ([], [req], True)
               | Not_ok \<Rightarrow>
                   (case fetch_files net rawBaseUrl cat skillFolderName rest of
                      (skillFiles, reqs, threw) \<Rightarrow> (skillFiles, req # reqs, threw))
               | Ok_body text \<Rightarrow>
                   (case fetch_files net rawBaseUrl cat skillFolderName rest of
                      (skillFiles, reqs, threw) \<Rightarrow>
                        (\<lparr>name = relativePath, content = text\<rparr> # skillFiles, req # reqs, threw)))
         else fetch_files net rawBaseUrl cat skillFolderName rest)"

definition skipped_by_filters :: "category_config \<Rightarrow> string \<Rightarrow> bool" where
  \<comment> \<open>the two \<open>continue\<close> tests at the head of the skill loop, \<open>include\<close> first\<close>
  "skipped_by_filters categoryConfig skillFolderName =
     (if (case include' categoryConfig of None \<Rightarrow> False | Some inc \<Rightarrow> skillFolderName \<notin> set inc)
      then True
      else (case exclude categoryConfig of None \<Rightarrow> False | Some exc \<Rightarrow> skillFolderName \<in> set exc))"

fun collect_skills ::
  "network \<Rightarrow> string \<Rightarrow> string \<Rightarrow> category_config \<Rightarrow> tree_item list \<Rightarrow> string list
     \<Rightarrow> collected_skill list \<times> request list \<times> bool" where
  \<comment> \<open>the loop over \<open>skillFolders\<close>: the skills pushed to \<open>collected\<close>, the requests made,
      and whether a \<open>fetch\<close> threw; skills pushed before the throw stay collected\<close>
  "collect_skills net rawBaseUrl cat categoryConfig allFiles [] = ([], [], False)"
| "collect_skills net rawBaseUrl cat categoryConfig allFiles (skillFolderName # rest) =
     (if skipped_by_filters categoryConfig skillFolderName
      then collect_skills net rawBaseUrl cat categoryConfig allFiles rest
      else
        (let skillSourceFiles =
               filter (\<lambda>f. startsWith (path f) (skill_prefix cat skillFolderName)) allFiles
         in case fetch_files net rawBaseUrl cat skillFolderName skillSourceFiles of
              (skillFiles, reqs, threw) \<Rightarrow>
                if threw then ([], reqs, True)
                else
                  (case collect_skills net rawBaseUrl cat categoryConfig allFiles rest of
                     (collected, reqs', threw') \<Rightarrow>
                       ((if skillFiles \<noteq> []
                         then [\<lparr>category = cat, skill = skillFolderName, files = skillFiles\<rparr>]
                         else []) @ collected,
                        reqs @ reqs', threw'))))"

definition tree_url :: "string \<Rightarrow> string \<Rightarrow> string \<Rightarrow> string" where
  "tree_url owner repo r =
     ''https://api.github.com/repos/'' @ owner @ ''/'' @ repo @ ''/git/trees/'' @ r @ ''?recursive=1''"

definition raw_base_url :: "string \<Rightarrow> string \<Rightarrow> string \<Rightarrow> string" where
  "raw_base_url owner repo r =
     ''https://raw.githubusercontent.com/'' @ owner @ ''/'' @ repo @ ''/'' @ r @ ''/skills/''"

definition assemble_category ::
  "network \<Rightarrow> string \<Rightarrow> string \<Rightarrow> string \<Rightarrow> category_config \<Rightarrow> collected_skill list \<times> request list" where
  \<comment> \<open>the body of the category loop; what the \<open>try\<close> catches ends the category only\<close>
  "assemble_category net owner repo cat categoryConfig =
     (let r = or_else (ref categoryConfig) ''main'';
          rawBaseUrl = raw_base_url owner repo r;
          treeUrl = tree_url owner repo r
      in case git_tree net treeUrl of
           Rejected \<Rightarrow> ([], [Get_tree treeUrl])
         | Not_ok \<Rightarrow> ([], [Get_tree treeUrl])
         | Ok_body tree \<Rightarrow>
             (let allFiles = (case tree of None \<Rightarrow> [] | Some items \<Rightarrow> items)
              in case collect_skills net rawBaseUrl cat categoryConfig allFiles
                        (skillFolders cat allFiles) of
                   (collected, reqs, threw) \<Rightarrow> (collected, Get_tree treeUrl # reqs)))"

fun assemble_loop ::
  "network \<Rightarrow> string \<Rightarrow> string \<Rightarrow> skill_config \<Rightarrow> string list
     \<Rightarrow> collected_skill list \<times> request list \<times> bool" where
  \<comment> \<open>the loop over \<open>categories\<close>; the flag says that \<open>config.skills[category]\<close> was
      \<open>undefined\<close>, whose \<open>.ref\<close> throws outside the \<open>try\<close>\<close>
  "assemble_loop net owner repo config [] = ([], [], False)"
| "assemble_loop net owner repo config (cat # rest) =
     (case map_of (skills config) cat of
        None \<Rightarrow> ([], [], True)
      | Some categoryConfig \<Rightarrow>
          (case assemble_category net owner repo cat categoryConfig of
             (found, reqs) \<Rightarrow>
               (case assemble_loop net owner repo config rest of
                  (collected, reqs', threw) \<Rightarrow> (found @ collected, reqs @ reqs', threw))))"

record assembly =
  collected :: "collected_skill list"
  fetched :: "request list"
  crashed :: bool

definition assembleFromRemote :: "network \<Rightarrow> string list \<Rightarrow> skill_config \<Rightarrow> assembly" where
  "assembleFromRemote net cats config =
     (case assemble_registry (registry config) of
        None \<Rightarrow> \<lparr>collected = [], fetched = [], crashed = False\<rparr>
      | Some (owner, repo) \<Rightarrow>
          (case assemble_loop net owner repo config cats of
             (found, reqs, threw) \<Rightarrow>
               \<lparr>collected = (if threw then [] else found), fetched = reqs, crashed = threw\<rparr>))"

section \<open>Paths and the file system\<close>

text \<open>
  Node's \<open>path\<close> module in its POSIX form: the slash separates, the backslash is an
  ordinary character. A file is identified by the segments of its absolute, normalised
  path; symbolic links are not modelled.
\<close>

fun normalizeString :: "bool \<Rightarrow> string list \<Rightarrow> string list \<Rightarrow> string list" where
  \<comment> \<open>the segments that remain, given the stack of segments kept so far (last one first):
      empty segments and \<open>.\<close> go, \<open>..\<close> removes the segment before it, or stays when
      nothing is left to remove and \<open>allowAboveRoot\<close> holds\<close>
  "normalizeString allowAboveRoot kept [] = rev kept"
| "normalizeString allowAboveRoot kept (seg # segs) =
     (if seg = [] \<or> seg = ''.'' then normalizeString allowAboveRoot kept segs
      else if seg = ''..'' then
        (case kept of
           [] \<Rightarrow> normalizeString allowAboveRoot (if allowAboveRoot then [''..''] else []) segs
         | k # ks \<Rightarrow>
             if k = ''..'' then normalizeString allowAboveRoot (''..'' # kept) segs
             else normalizeString allowAboveRoot ks segs)
      else normalizeString allowAboveRoot (seg # kept) segs)"

definition path_normalize :: "string \<Rightarrow> string" where
  "path_normalize p =
     (if p = [] then ''.''
      else
        (let isAbsolute = (hd p = CHR ''/'');
             trailingSeparator = (last p = CHR ''/'');
             segs = normalizeString (\<not> isAbsolute) [] (split_on CHR ''/'' p)
         in if segs = [] then (if isAbsolute then ''/'' else if trailingSeparator then ''./'' else ''.'')
            else (if isAbsolute then ''/'' else []) @ join_with ''/'' segs
                 @ (if trailingSeparator then ''/'' else [])))"

definition path_join :: "string list \<Rightarrow> string" where
  \<comment> \<open>\<open>path.join(...parts)\<close>\<close>
  "path_join parts =
     (let joined = join_with ''/'' (filter (\<lambda>part. part \<noteq> []) parts)
      in if joined = [] then ''.'' else path_normalize joined)"

definition path_dirname :: "string \<Rightarrow> string" where
  \<comment> \<open>\<open>path.dirname(p)\<close>: trailing slashes and the last segment go; the first character is
      never looked at as a separator\<close>
  "path_dirname p =
     (if p = [] then ''.''
      else
        (let body = rev (dropWhile (\<lambda>c. c = CHR ''/'') (rev (tl p)));
             keep = rev (dropWhile (\<lambda>c. c \<noteq> CHR ''/'') (rev body))
         in if keep = [] then (if hd p = CHR ''/'' then ''/'' else ''.'')
            else if hd p = CHR ''/'' \<and> length keep = 1 then ''//''
            else hd p # butlast keep))"

definition path_resolve :: "string \<Rightarrow> string \<Rightarrow> string list" where
  \<comment> \<open>the file that \<open>p\<close> names in a process whose working directory is \<open>cwd\<close> (an absolute
      path): the segments of \<open>path.resolve(p)\<close>\<close>
  "path_resolve cwd p =
     normalizeString False []
       (split_on CHR ''/'' (if p \<noteq> [] \<and> hd p = CHR ''/'' then p else cwd @ ''/'' @ p))"

fun strip_common :: "'a list \<Rightarrow> 'a list \<Rightarrow> 'a list \<times> 'a list" where
  "strip_common (x # xs) (y # ys) = (if x = y then strip_common xs ys else (x # xs, y # ys))"
| "strip_common xs ys = (xs, ys)"

definition relative_to :: "string \<Rightarrow> string list \<Rightarrow> string" where
  \<comment> \<open>\<open>path.relative(cwd, p)\<close> for the file that \<open>p\<close> names: one \<open>..\<close> for each segment of
      the working directory below the common ancestor, then the rest of the file's path\<close>
  "relative_to cwd file =
     (case strip_common (path_resolve cwd []) file of
        (up, down) \<Rightarrow> join_with ''/'' (map (\<lambda>_. ''..'') up @ down))"

definition path_relative :: "string \<Rightarrow> string \<Rightarrow> string" where
  \<comment> \<open>\<open>path.relative(process.cwd(), p)\<close>\<close>
  "path_relative cwd p = relative_to cwd (path_resolve cwd p)"

text \<open>
  The disk is a map from absolute paths to files and directories. The calls of
  \<open>fs-extra\<close> are modelled with the failures that depend on what is on disk: a file where
  a directory is needed, a directory where a file is to be written. Failures of the
  environment (permissions, a full disk) are not modelled.
\<close>

datatype node = File string | Dir

type_synonym filesystem = "string list \<Rightarrow> node option"

fun is_file :: "node option \<Rightarrow> bool" where
  "is_file (Some (File text)) = True"
| "is_file other = False"

definition read_file :: "filesystem \<Rightarrow> string list \<Rightarrow> string option" where
  \<comment> \<open>the content on disk at a path, if a file is there\<close>
  "read_file fs file = (case fs file of Some (File text) \<Rightarrow> Some text | other \<Rightarrow> None)"

definition mkdirs :: "filesystem \<Rightarrow> string list \<Rightarrow> filesystem option" where
  \<comment> \<open>\<open>mkdir -p\<close>: fails, changing nothing, when a file stands at the path or above it;
      otherwise the path and everything above it are directories afterwards\<close>
  "mkdirs fs dir =
     (if \<exists>above \<in> set (prefixes dir). is_file (fs above) then None
      else Some (\<lambda>file. if file \<in> set (prefixes dir) then Some Dir else fs file))"

datatype fs_call = EnsureDir string | OutputFile string string

definition ensure_parent :: "string \<Rightarrow> string \<Rightarrow> filesystem \<Rightarrow> filesystem option" where
  \<comment> \<open>the first step of \<open>outputFile\<close>: the directory of the file is made unless something
      exists at its path already\<close>
  "ensure_parent cwd p fs =
     (let dir = path_resolve cwd (path_dirname p)
      in if fs dir \<noteq> None then Some fs else mkdirs fs dir)"

definition open_fails :: "string \<Rightarrow> string \<Rightarrow> filesystem \<Rightarrow> bool" where
  \<comment> \<open>opening a file for writing fails on a path that ends in a slash, on the root, on a
      directory, and where the place above the file is not a directory\<close>
  "open_fails cwd p fs =
     (let file = path_resolve cwd p
      in (p \<noteq> [] \<and> last p = CHR ''/'') \<or> file = [] \<or> fs file = Some Dir
         \<or> fs (butlast file) \<noteq> Some Dir)"

fun exec_call :: "string \<Rightarrow> fs_call \<Rightarrow> filesystem \<Rightarrow> filesystem \<times> bool" where
  \<comment> \<open>one call of \<open>fs-extra\<close>: the file system afterwards, and whether the call returned
      (\<open>False\<close>: it threw)\<close>
  "exec_call cwd (EnsureDir p) fs =
     (case mkdirs fs (path_resolve cwd p) of
        None \<Rightarrow> (fs, False)
      | Some fs' \<Rightarrow> (fs', True))"
| "exec_call cwd (OutputFile p text) fs =
     (case ensure_parent cwd p fs of
        None \<Rightarrow> (fs, False)
      | Some fs' \<Rightarrow>
          if open_fails cwd p fs' then (fs', False)
          else (fs'(path_resolve cwd p \<mapsto> File text), True))"

fun run_calls :: "string \<Rightarrow> fs_call list \<Rightarrow> filesystem \<Rightarrow> filesystem \<times> bool" where
  \<comment> \<open>calls awaited one after the other; the first that throws ends the sequence\<close>
  "run_calls cwd [] fs = (fs, True)"
| "run_calls cwd (call # calls) fs =
     (case exec_call cwd call fs of
        (fs', returned) \<Rightarrow> if returned then run_calls cwd calls fs' else (fs', False))"

fun written :: "string \<Rightarrow> fs_call list \<Rightarrow> filesystem \<Rightarrow> string list set" where
  \<comment> \<open>the files that a sequence of calls writes before it ends\<close>
  "written cwd [] fs = {}"
| "written cwd (call # calls) fs =
     (case exec_call cwd call fs of
        (fs', returned) \<Rightarrow>
          if returned
          then (case call of
                  EnsureDir p \<Rightarrow> {}
                | OutputFile p text \<Rightarrow> {path_resolve cwd p}) \<union> written cwd calls fs'
          else {})"

definition grows :: "filesystem \<Rightarrow> filesystem \<Rightarrow> bool" where
  \<comment> \<open>what is a file stays a file and what is a directory stays a directory\<close>
  "grows fs fs' =
     (\<forall>file. (is_file (fs file) \<longrightarrow> is_file (fs' file)) \<and>
             (fs file = Some Dir \<longrightarrow> fs' file = Some Dir))"

section \<open>The target writer\<close>

datatype Agent = Cursor | Trae | Claude | Copilot | Antigravity | OpenAI | OpenCode | Gemini | Roo

fun agent_value :: "Agent \<Rightarrow> string" where
  \<comment> \<open>the string values of the enum \<open>Agent\<close>\<close>
  "agent_value Cursor = ''cursor''"
| "agent_value Trae = ''trae''"
| "agent_value Claude = ''claude''"
| "agent_value Copilot = ''copilot''"
| "agent_value Antigravity = ''antigravity''"
| "agent_value OpenAI = ''openai''"
| "agent_value OpenCode = ''opencode''"
| "agent_value Gemini = ''gemini''"
| "agent_value Roo = ''roo''"

record agent_definition =
  agent_id :: string
  agent_name :: string
  agent_path :: string
  detectionFiles :: "string list"

fun getAgentDefinition :: "Agent \<Rightarrow> agent_definition" where
  "getAgentDefinition Cursor =
     \<lparr>agent_id = agent_value Cursor, agent_name = ''Cursor'', agent_path = ''.cursor/skills'',
      detectionFiles = [''.cursor'', ''.cursorrules'']\<rparr>"
| "getAgentDefinition Trae =
     \<lparr>agent_id = agent_value Trae, agent_name = ''Trae'', agent_path = ''.trae/skills'',
      detectionFiles = [''.trae'']\<rparr>"
| "getAgentDefinition Claude =
     \<lparr>agent_id = agent_value Claude, agent_name = ''Claude Code'', agent_path = ''.claude/skills'',
      detectionFiles = [''.claude'', ''CLAUDE.md'']\<rparr>"
| "getAgentDefinition Copilot =
     \<lparr>agent_id = agent_value Copilot, agent_name = ''GitHub Copilot'', agent_path = ''.github/skills'',
      detectionFiles = [''.github'']\<rparr>"
| "getAgentDefinition Antigravity =
     \<lparr>agent_id = agent_value Antigravity, agent_name = ''Antigravity'', agent_path = ''.agent/skills'',
      detectionFiles = [''.agent'']\<rparr>"
| "getAgentDefinition OpenAI =
     \<lparr>agent_id = agent_value OpenAI, agent_name = ''OpenAI'', agent_path = ''.codex/skills'',
      detectionFiles = [''.codex'']\<rparr>"
| "getAgentDefinition OpenCode =
     \<lparr>agent_id = agent_value OpenCode, agent_name = ''OpenCode'', agent_path = ''.opencode/skills'',
      detectionFiles = [''.opencode'']\<rparr>"
| "getAgentDefinition Gemini =
     \<lparr>agent_id = agent_value Gemini, agent_name = ''Gemini'', agent_path = ''.gemini/skills'',
      detectionFiles = [''.gemini'']\<rparr>"
| "getAgentDefinition Roo =
     \<lparr>agent_id = agent_value Roo, agent_name = ''Roo Code'', agent_path = ''.roo/skills'',
      detectionFiles = [''.roo'']\<rparr>"

definition SUPPORTED_AGENTS :: "agent_definition list" where
  \<comment> \<open>\<open>Object.values(Agent).map(getAgentDefinition)\<close>\<close>
  "SUPPORTED_AGENTS =
     map getAgentDefinition [Cursor, Trae, Claude, Copilot, Antigravity, OpenAI, OpenCode, Gemini, Roo]"

definition isOverridden :: "string list \<Rightarrow> string \<Rightarrow> bool" where
  \<comment> \<open>\<open>overrides.some(...)\<close>\<close>
  "isOverridden overrides relativePath =
     (\<exists>rule \<in> set overrides.
        (let overridePath = slashes rule
         in relativePath = overridePath \<or>
            startsWith relativePath (strip_trailing_slash overridePath @ ''/'')))"

definition file_calls :: "string \<Rightarrow> string list \<Rightarrow> string \<Rightarrow> skill_file \<Rightarrow> fs_call list" where
  \<comment> \<open>the body of the loop over \<open>skill.files\<close>\<close>
  "file_calls cwd overrides skillPath fileItem =
     (let targetFilePath = path_join [skillPath, name fileItem];
          relativePath = slashes (path_relative cwd targetFilePath)
      in if isOverridden overrides relativePath then []
         else [OutputFile targetFilePath (content fileItem)])"

definition skill_calls :: "string \<Rightarrow> string list \<Rightarrow> string \<Rightarrow> collected_skill \<Rightarrow> fs_call list" where
  \<comment> \<open>the body of the loop over \<open>skills\<close>\<close>
  "skill_calls cwd overrides basePath item =
     (let skillPath = path_join [basePath, category item, skill item]
      in EnsureDir skillPath # concat (map (file_calls cwd overrides skillPath) (files item)))"

definition agent_calls :: "string \<Rightarrow> string list \<Rightarrow> collected_skill list \<Rightarrow> string \<Rightarrow> fs_call list" where
  \<comment> \<open>the body of the loop over \<open>agents\<close>\<close>
  "agent_calls cwd overrides items agentId =
     (case find (\<lambda>a. agent_id a = agentId) SUPPORTED_AGENTS of
        None \<Rightarrow> []
      | Some agentDef \<Rightarrow>
          (let basePath = agent_path agentDef
           in if basePath \<noteq> []
              then EnsureDir basePath # concat (map (skill_calls cwd overrides basePath) items)
              else []))"

definition write_calls :: "string \<Rightarrow> collected_skill list \<Rightarrow> skill_config \<Rightarrow> fs_call list" where
  \<comment> \<open>the calls of \<open>fs-extra\<close> that \<open>writeToTargets\<close> makes, in order; no branch of the
      method depends on what is on disk\<close>
  "write_calls cwd items config =
     (let agentIds = (case agents config of None \<Rightarrow> map agent_id SUPPORTED_AGENTS | Some ids \<Rightarrow> ids);
          overrides = (case custom_overrides config of None \<Rightarrow> [] | Some rules \<Rightarrow> rules)
      in concat (map (agent_calls cwd overrides items) agentIds))"

definition writeToTargets ::
  "string \<Rightarrow> collected_skill list \<Rightarrow> skill_config \<Rightarrow> filesystem \<Rightarrow> filesystem \<times> bool" where
  \<comment> \<open>the file system afterwards, and whether the method returned (\<open>False\<close>: a call threw)\<close>
  "writeToTargets cwd items config fs = run_calls cwd (write_calls cwd items config) fs"

section \<open>The sync command\<close>

datatype config_file = Missing | Unreadable | Loaded skill_config

datatype message = Config_not_found | Run_init_first | Syncing_from string | All_synced | Failed_to_sync

text \<open>
  What a run meets besides the network and the disk: the answer to the update prompt,
  whether \<open>.skillsrc\<close> can be written back, the version in the tool's own
  \<open>package.json\<close> (when that file exists) and the working directory.
\<close>

record environment =
  net :: network
  confirm :: "bool option"
  config_writable :: bool
  package_version :: "string option"
  cwd :: string

text \<open>
  What a run leaves behind: the lines that \<open>run\<close> itself prints (those of the other
  methods are not modelled), the requests made, the disk, the configuration written back
  (if any) and the exit status of the process. No statement of the program sets
  \<open>process.exitCode\<close> or calls \<open>process.exit\<close>, and \<open>run\<close> catches what its steps throw,
  so the status is the default of the runtime on every path.
\<close>

record outcome =
  printed :: "message list"
  requested :: "request list"
  disk :: filesystem
  config_saved :: "skill_config option"
  exit_status :: nat

definition checkCLIUpdate :: "environment \<Rightarrow> request list" where
  \<comment> \<open>never throws; asks the package registry unless the tool's \<open>package.json\<close> is missing\<close>
  "checkCLIUpdate env = (case package_version env of None \<Rightarrow> [] | Some current \<Rightarrow> [Get_npm])"

definition run :: "environment \<Rightarrow> config_file \<Rightarrow> filesystem \<Rightarrow> outcome" where
  "run env file fs =
     (case file of
        Missing \<Rightarrow>
          \<lparr>printed = [Config_not_found, Run_init_first], requested = [], disk = fs,
           config_saved = None, exit_status = 0\<rparr>
      | Unreadable \<Rightarrow>
          \<lparr>printed = [Failed_to_sync], requested = [], disk = fs,
           config_saved = None, exit_status = 0\<rparr>
      | Loaded loaded \<Rightarrow>
          (let cli = checkCLIUpdate env;
               checked = checkForUpdates (net env) (confirm env) (config_writable env) loaded;
               config = config_after checked;
               enabledCategories = map fst (filter (\<lambda>(key, v). enabled v) (skills config));
               assembled = assembleFromRemote (net env) enabledCategories config;
               reqs = cli @ asked checked @ fetched assembled
           in if crashed assembled then
                \<lparr>printed = [Syncing_from (registry config), Failed_to_sync], requested = reqs,
                 disk = fs, config_saved = saved checked, exit_status = 0\<rparr>
              else
                (case writeToTargets (cwd env) (collected assembled) config fs of
                   (fs', returned) \<Rightarrow>
                     \<lparr>printed = [Syncing_from (registry config),
                                 if returned then All_synced else Failed_to_sync],
                      requested = reqs, disk = fs', config_saved = saved checked,
                      exit_status = 0\<rparr>)))"

section \<open>What the assembler is to fetch\<close>

text \<open>
  The contract of the assembler in the words of its specification, to be compared with
  the loops above. An entry of the tree listing belongs to a skill when its path starts
  with the skill's folder; it is eligible when it is a blob and its path relative to
  the folder is \<open>SKILL.md\<close> or lies under \<open>references/\<close>, \<open>scripts/\<close> or \<open>assets/\<close>.
  \<open>fetched_ok\<close> lists the eligible entries whose fetch answers \<open>ok\<close>, with their text;
  \<open>expected_skill\<close> and \<open>expected_requests\<close> say what a skill folder then contributes.
\<close>

definition entry_name :: "string \<Rightarrow> string \<Rightarrow> tree_item \<Rightarrow> string" where
  "entry_name cat s f = drop (length (skill_prefix cat s)) (path f)"

definition eligible_entry :: "string \<Rightarrow> string \<Rightarrow> tree_item \<Rightarrow> bool" where
  "eligible_entry cat s f =
     (startsWith (path f) (skill_prefix cat s) \<and> type f = ''blob'' \<and>
      (entry_name cat s f = ''SKILL.md'' \<or>
       startsWith (entry_name cat s f) ''references/'' \<or>
       startsWith (entry_name cat s f) ''scripts/'' \<or>
       startsWith (entry_name cat s f) ''assets/''))"

definition entry_url :: "string \<Rightarrow> string \<Rightarrow> string \<Rightarrow> tree_item \<Rightarrow> string" where
  "entry_url rawBaseUrl cat s f = rawBaseUrl @ cat @ ''/'' @ s @ ''/'' @ entry_name cat s f"

definition entry_request :: "string \<Rightarrow> string \<Rightarrow> string \<Rightarrow> tree_item \<Rightarrow> request" where
  "entry_request rawBaseUrl cat s f =
     Get_file cat s (entry_name cat s f) (entry_url rawBaseUrl cat s f)"

fun fetched_ok :: "network \<Rightarrow> string \<Rightarrow> string \<Rightarrow> string \<Rightarrow> tree_item list \<Rightarrow> skill_file list" where
  "fetched_ok web rawBaseUrl cat s [] = []"
| "fetched_ok web rawBaseUrl cat s (f # fs) =
     (case raw_file web (entry_url rawBaseUrl cat s f) of
        Ok_body text \<Rightarrow> \<lparr>name = entry_name cat s f, content = text\<rparr> # fetched_ok web rawBaseUrl cat s fs
      | other \<Rightarrow> fetched_ok web rawBaseUrl cat s fs)"

definition skill_entries :: "string \<Rightarrow> string \<Rightarrow> tree_item list \<Rightarrow> tree_item list" where
  "skill_entries cat s allFiles = filter (eligible_entry cat s) allFiles"

definition expected_skill ::
  "network \<Rightarrow> string \<Rightarrow> string \<Rightarrow> category_config \<Rightarrow> tree_item list \<Rightarrow> string \<Rightarrow> collected_skill list" where
  "expected_skill web rawBaseUrl cat categoryConfig allFiles s =
     (if skipped_by_filters categoryConfig s then []
      else if fetched_ok web rawBaseUrl cat s (skill_entries cat s allFiles) = [] then []
      else [\<lparr>category = cat, skill = s,
             files = fetched_ok web rawBaseUrl cat s (skill_entries cat s allFiles)\<rparr>])"

definition expected_requests ::
  "string \<Rightarrow> string \<Rightarrow> category_config \<Rightarrow> tree_item list \<Rightarrow> string \<Rightarrow> request list" where
  "expected_requests rawBaseUrl cat categoryConfig allFiles s =
     (if skipped_by_filters categoryConfig s then []
      else map (entry_request rawBaseUrl cat s) (skill_entries cat s allFiles))"

section \<open>Example inputs\<close>

definition example_metadata :: remote_metadata where
  "example_metadata =
     \<lparr>categories = Some [(''cat'', \<lparr>version = Some ''2.0.0'', tag_prefix = Some ''v''\<rparr>)]\<rparr>"

definition example_network :: network where
  "example_network =
     \<lparr>repo_info = (\<lambda>url. Ok_body (Some ''main'')),
      metadata_json = (\<lambda>url. Ok_body example_metadata),
      git_tree = (\<lambda>url. Not_ok),
      raw_file = (\<lambda>url. Not_ok),
      npm_latest = Not_ok\<rparr>"

definition example_category :: category_config where
  "example_category = \<lparr>enabled = True, ref = Some ''v1.0.0'', exclude = None, include' = None\<rparr>"

definition example_config :: skill_config where
  "example_config =
     \<lparr>registry = ''https://github.com/owner/repo'',
      agents = Some [''cursor''],
      skills = [(''cat'', example_category)],
      custom_overrides = Some []\<rparr>"

definition example_environment :: environment where
  "example_environment =
     \<lparr>net = example_network, confirm = Some False, config_writable = True,
      package_version = Some ''1.1.1'', cwd = ''/project''\<rparr>"

definition example_skills :: "collected_skill list" where
  "example_skills =
     [\<lparr>category = ''cat'', skill = ''one'',
       files = [\<lparr>name = ''SKILL.md'', content = ''remote text''\<rparr>]\<rparr>]"

definition unsupported_config :: skill_config where
  "unsupported_config = example_config\<lparr>registry := ''https://gitlab.com/owner/repo''\<rparr>"

definition filter_category :: category_config where
  "filter_category =
     \<lparr>enabled = True, ref = None, exclude = Some [''b''], include' = Some [''a'', ''b'']\<rparr>"

definition filter_config :: skill_config where
  "filter_config = example_config\<lparr>skills := [(''cat'', filter_category)]\<rparr>"

definition filter_tree :: "tree_item list" where
  "filter_tree =
     [\<lparr>path = ''skills/cat/a/SKILL.md'', type = ''blob''\<rparr>,
      \<lparr>path = ''skills/cat/b/SKILL.md'', type = ''blob''\<rparr>,
      \<lparr>path = ''skills/cat/c/SKILL.md'', type = ''blob''\<rparr>]"

definition filter_network :: network where
  "filter_network =
     example_network\<lparr>git_tree := (\<lambda>url. Ok_body (Some filter_tree)),
                      raw_file := (\<lambda>url. Ok_body ''remote text'')\<rparr>"

definition broken_tree :: "tree_item list" where
  "broken_tree =
     [\<lparr>path = ''skills/cat/one'', type = ''tree''\<rparr>,
      \<lparr>path = ''skills/cat/one/SKILL.md'', type = ''blob''\<rparr>,
      \<lparr>path = ''skills/cat/one/references/a.md'', type = ''blob''\<rparr>,
      \<lparr>path = ''skills/cat/one/scripts/b.sh'', type = ''blob''\<rparr>,
      \<lparr>path = ''skills/cat/one/notes.txt'', type = ''blob''\<rparr>]"

definition broken_network :: network where
  "broken_network =
     example_network\<lparr>git_tree := (\<lambda>url. Ok_body (Some broken_tree)),
        raw_file := (\<lambda>url.
          if url = ''https://raw.githubusercontent.com/owner/repo/v1.0.0/skills/cat/one/references/a.md''
          then Rejected else Ok_body ''remote text'')\<rparr>"

definition flaky_network :: network where
  "flaky_network =
     example_network\<lparr>git_tree := (\<lambda>url. Ok_body (Some broken_tree)),
        raw_file := (\<lambda>url.
          if url = ''https://raw.githubusercontent.com/owner/repo/v1.0.0/skills/cat/one/references/a.md''
          then Not_ok else Ok_body ''remote text'')\<rparr>"

definition override_config :: skill_config where
  "override_config = example_config\<lparr>custom_overrides := Some [''.cursor/skills/cat/'']\<rparr>"

definition local_file :: "string list" where
  "local_file = [''project'', ''.cursor'', ''skills'', ''cat'', ''one'', ''SKILL.md'']"

definition local_disk :: filesystem where
  "local_disk =
     (\<lambda>file. if file = local_file then Some (File ''local text'')
             else if prefix file (butlast local_file) then Some Dir
             else None)"

section \<open>Registry locators\<close>

lemma lower_slash: "lower c = CHR ''/'' \<longleftrightarrow> c = CHR ''/''"
  by (auto simp: lower_def split: option.splits if_splits)

lemma github_host_length:
  assumes "map lower host = ''github.com''"
  shows "length host = 10"
proof -
  from assms have "length (map lower host) = length ''github.com''" by (rule arg_cong)
  then show ?thesis by simp
qed

lemma github_prefix_iff:
  "github_prefix r \<longleftrightarrow> (\<exists>host. take 11 r = host @ ''/'' \<and> map lower host = ''github.com'')"
proof
  assume gp: "github_prefix r"
  then have "map lower (take 11 r) = ''github.com'' @ ''/''" by (simp add: github_prefix_def)
  then have "\<exists>us vs. take 11 r = us @ vs \<and> ''github.com'' = map lower us \<and> ''/'' = map lower vs"
    by (simp only: map_eq_append_conv)
  then obtain host sep where t: "take 11 r = host @ sep"
    and h: "''github.com'' = map lower host" and s: "''/'' = map lower sep"
    by (elim exE conjE) (rule that)
  from s have "map lower sep = ''/''" by (rule sym)
  then have "sep = ''/''" by (cases sep) (auto simp: lower_slash)
  with t have "take 11 r = host @ ''/''" by (simp only:)
  moreover from h have "map lower host = ''github.com''" by (rule sym)
  ultimately show "\<exists>host. take 11 r = host @ ''/'' \<and> map lower host = ''github.com''"
    by (intro exI[of _ host] conjI)
next
  assume "\<exists>host. take 11 r = host @ ''/'' \<and> map lower host = ''github.com''"
  then obtain host where t: "take 11 r = host @ ''/''" and h: "map lower host = ''github.com''"
    by (elim exE conjE) (rule that)
  have "map lower (take 11 r) = map lower host @ [lower (CHR ''/'')]" by (simp only: t map_append list.map)
  also have "\<dots> = ''github.com'' @ ''/''" by (simp add: h lower_slash)
  finally show "github_prefix r" by (simp add: github_prefix_def)
qed


lemma github_prefix_drop:
  assumes "take 11 r = host @ ''/''"
  shows "r = host @ ''/'' @ drop 11 r"
proof -
  have "r = take 11 r @ drop 11 r" by simp
  also have "\<dots> = (host @ ''/'') @ drop 11 r" by (simp only: assms)
  finally show ?thesis by (simp only: append_assoc)
qed

lemma owner_and_rest_iff:
  "owner_and_rest s = Some (owner, rest) \<longleftrightarrow>
     (s = owner @ ''/'' @ rest \<and> owner \<noteq> [] \<and> CHR ''/'' \<notin> set owner)"
proof
  assume a: "owner_and_rest s = Some (owner, rest)"
  let ?P = "\<lambda>c. c \<noteq> CHR ''/''"
  from a have o: "takeWhile ?P s = owner" and ne: "owner \<noteq> []"
    and d: "dropWhile ?P s \<noteq> []" and r: "tl (dropWhile ?P s) = rest"
    by (auto simp: owner_and_rest_def Let_def split: if_splits)
  from d have "hd (dropWhile ?P s) = CHR ''/''" using hd_dropWhile[of ?P s] by auto
  with d r have dw: "dropWhile ?P s = ''/'' @ rest" by (cases "dropWhile ?P s") auto
  have "s = takeWhile ?P s @ dropWhile ?P s" by simp
  also have "\<dots> = owner @ ''/'' @ rest" by (simp only: o dw)
  finally have "s = owner @ ''/'' @ rest" .
  moreover have "CHR ''/'' \<notin> set owner" unfolding o[symmetric] by (auto dest: set_takeWhileD)
  ultimately show "s = owner @ ''/'' @ rest \<and> owner \<noteq> [] \<and> CHR ''/'' \<notin> set owner"
    using ne by simp
next
  assume "s = owner @ ''/'' @ rest \<and> owner \<noteq> [] \<and> CHR ''/'' \<notin> set owner"
  then have s: "s = owner @ CHR ''/'' # rest" and ne: "owner \<noteq> []" and ns: "\<forall>c\<in>set owner. c \<noteq> CHR ''/''"
    by auto
  have "takeWhile (\<lambda>c. c \<noteq> CHR ''/'') s = owner" unfolding s using ns
    by (simp add: takeWhile_append2)
  moreover have "dropWhile (\<lambda>c. c \<noteq> CHR ''/'') s = CHR ''/'' # rest" unfolding s using ns
    by (simp add: dropWhile_append2)
  ultimately show "owner_and_rest s = Some (owner, rest)" using ne
    by (simp add: owner_and_rest_def)
qed

lemma assemble_match_here_iff:
  "assemble_match_here r \<noteq> None \<longleftrightarrow>
     (\<exists>host owner repo rest.
        r = host @ ''/'' @ owner @ ''/'' @ repo @ rest \<and> map lower host = ''github.com'' \<and>
        owner \<noteq> [] \<and> CHR ''/'' \<notin> set owner \<and> repo \<noteq> [] \<and> CHR ''/'' \<notin> set repo)"
proof
  assume a: "assemble_match_here r \<noteq> None"
  then have gp: "github_prefix r" by (auto simp: assemble_match_here_def split: if_splits)
  then obtain host where t: "take 11 r = host @ ''/''" and h: "map lower host = ''github.com''"
    unfolding github_prefix_iff by (elim exE conjE) (rule that)
  from a gp obtain owner rest1 where o: "owner_and_rest (drop 11 r) = Some (owner, rest1)"
    and rp: "takeWhile (\<lambda>c. c \<noteq> CHR ''/'') rest1 \<noteq> []"
    by (auto simp: assemble_match_here_def Let_def split: option.splits if_splits)
  let ?repo = "takeWhile (\<lambda>c. c \<noteq> CHR ''/'') rest1"
  let ?rest = "dropWhile (\<lambda>c. c \<noteq> CHR ''/'') rest1"
  from o have r0: "drop 11 r = owner @ ''/'' @ rest1" and on: "owner \<noteq> []" and os: "CHR ''/'' \<notin> set owner"
    unfolding owner_and_rest_iff by simp_all
  have "r = host @ ''/'' @ drop 11 r" using t by (rule github_prefix_drop)
  also have "\<dots> = host @ ''/'' @ owner @ ''/'' @ rest1" by (simp only: r0)
  also have "rest1 = ?repo @ ?rest" by simp
  finally have eq: "r = host @ ''/'' @ owner @ ''/'' @ ?repo @ ?rest" .
  have rs: "CHR ''/'' \<notin> set ?repo" by (auto dest: set_takeWhileD)
  show "\<exists>host owner repo rest.
        r = host @ ''/'' @ owner @ ''/'' @ repo @ rest \<and> map lower host = ''github.com'' \<and>
        owner \<noteq> [] \<and> CHR ''/'' \<notin> set owner \<and> repo \<noteq> [] \<and> CHR ''/'' \<notin> set repo"
    using eq h on os rp rs
    by (intro exI[of _ host] exI[of _ owner] exI[of _ ?repo] exI[of _ ?rest] conjI)
next
  assume "\<exists>host owner repo rest.
        r = host @ ''/'' @ owner @ ''/'' @ repo @ rest \<and> map lower host = ''github.com'' \<and>
        owner \<noteq> [] \<and> CHR ''/'' \<notin> set owner \<and> repo \<noteq> [] \<and> CHR ''/'' \<notin> set repo"
  then obtain host owner repo rest where r: "r = host @ ''/'' @ owner @ ''/'' @ repo @ rest"
    and h: "map lower host = ''github.com''" and on: "owner \<noteq> []" and os: "CHR ''/'' \<notin> set owner"
    and rn: "repo \<noteq> []" and rs: "CHR ''/'' \<notin> set repo"
    by (elim exE conjE) (rule that)
  have len: "length host = 10" using h by (rule github_host_length)
  have t: "take 11 r = host @ ''/''" unfolding r using len by simp
  have gp: "github_prefix r" unfolding github_prefix_iff using t h by (intro exI[of _ host] conjI)
  have d: "drop 11 r = owner @ ''/'' @ repo @ rest" unfolding r using len by simp
  have o: "owner_and_rest (owner @ ''/'' @ repo @ rest) = Some (owner, repo @ rest)"
    unfolding owner_and_rest_iff using on os by simp
  have "takeWhile (\<lambda>c. c \<noteq> CHR ''/'') (repo @ rest) = repo @ takeWhile (\<lambda>c. c \<noteq> CHR ''/'') rest"
    using rs by (intro takeWhile_append2) auto
  then have "takeWhile (\<lambda>c. c \<noteq> CHR ''/'') (repo @ rest) \<noteq> []" using rn by simp
  then show "assemble_match_here r \<noteq> None"
    using gp d o by (simp add: assemble_match_here_def Let_def)
qed

lemma regex_search_iff:
  "regex_search here s \<noteq> None \<longleftrightarrow> (\<exists>before rest. s = before @ rest \<and> here rest \<noteq> None)"
proof (induction s)
  case Nil
  then show ?case by simp
next
  case (Cons x xs)
  show ?case
  proof (cases "here (x # xs)")
    case (Some m)
    then have "\<exists>before rest. x # xs = before @ rest \<and> here rest \<noteq> None"
      by (intro exI[of _ "[]"] exI[of _ "x # xs"]) simp
    with Some show ?thesis by simp
  next
    case None
    have "(\<exists>before rest. x # xs = before @ rest \<and> here rest \<noteq> None) \<longleftrightarrow>
          (\<exists>before rest. xs = before @ rest \<and> here rest \<noteq> None)"
    proof
      assume "\<exists>before rest. x # xs = before @ rest \<and> here rest \<noteq> None"
      then obtain b r where br: "x # xs = b @ r" "here r \<noteq> None" by blast
      with None have "b \<noteq> []" by (cases b) auto
      then obtain b' where "b = x # b'" using br(1) by (cases b) auto
      with br show "\<exists>before rest. xs = before @ rest \<and> here rest \<noteq> None" by auto
    next
      assume "\<exists>before rest. xs = before @ rest \<and> here rest \<noteq> None"
      then obtain b r where "xs = b @ r" "here r \<noteq> None" by blast
      then have "x # xs = (x # b) @ r" by simp
      with \<open>here r \<noteq> None\<close> show "\<exists>before rest. x # xs = before @ rest \<and> here rest \<noteq> None" by blast
    qed
    with None Cons.IH show ?thesis by simp
  qed
qed

lemma assemble_registry_iff: "assemble_registry s \<noteq> None \<longleftrightarrow> github_locator s"
proof -
  have "assemble_registry s \<noteq> None \<longleftrightarrow>
        (\<exists>before r. s = before @ r \<and> assemble_match_here r \<noteq> None)"
    unfolding assemble_registry_def by (rule regex_search_iff)
  also have "\<dots> \<longleftrightarrow> github_locator s"
  proof
    assume "\<exists>before r. s = before @ r \<and> assemble_match_here r \<noteq> None"
    then obtain before r where s: "s = before @ r" and m: "assemble_match_here r \<noteq> None"
      by (elim exE conjE) (rule that)
    from m obtain host owner repo rest where
      r: "r = host @ ''/'' @ owner @ ''/'' @ repo @ rest" and rest: "map lower host = ''github.com''"
      "owner \<noteq> []" "CHR ''/'' \<notin> set owner" "repo \<noteq> []" "CHR ''/'' \<notin> set repo"
      unfolding assemble_match_here_iff by (elim exE conjE) (rule that)
    have "s = before @ host @ ''/'' @ owner @ ''/'' @ repo @ rest" by (simp only: s r)
    then show "github_locator s" unfolding github_locator_def using rest
      by (intro exI[of _ before] exI[of _ host] exI[of _ owner] exI[of _ repo] exI[of _ rest] conjI)
  next
    assume "github_locator s"
    then obtain before host owner repo rest where
      s: "s = before @ host @ ''/'' @ owner @ ''/'' @ repo @ rest" and
      rest: "map lower host = ''github.com''"
      "owner \<noteq> []" "CHR ''/'' \<notin> set owner" "repo \<noteq> []" "CHR ''/'' \<notin> set repo"
      unfolding github_locator_def by (elim exE conjE) (rule that)
    have "assemble_match_here (host @ ''/'' @ owner @ ''/'' @ repo @ rest) \<noteq> None"
      unfolding assemble_match_here_iff using rest
      by (intro exI[of _ host] exI[of _ owner] exI[of _ repo] exI[of _ rest] conjI refl)
    with s show "\<exists>before r. s = before @ r \<and> assemble_match_here r \<noteq> None"
      by (intro exI[of _ before] exI[of _ "host @ ''/'' @ owner @ ''/'' @ repo @ rest"] conjI)
  qed
  finally show ?thesis .
qed

text \<open>
  C10. The reconciler and the assembler read owner and repository from the same locator
  with two different patterns. On a locator that ends in \<open>.git\<close> the reconciler takes the
  repository name up to the dot and the assembler takes it with the suffix, so the two
  steps address different repositories; on a repository name that starts with a dot the
  reconciler finds nothing where the assembler finds a repository.
\<close>

theorem registry_patterns_disagree:
  "reconcile_registry ''https://github.com/owner/repo.git'' = Some (''owner'', ''repo'') \<and>
   assemble_registry ''https://github.com/owner/repo.git'' = Some (''owner'', ''repo.git'') \<and>
   reconcile_registry ''https://github.com/owner/.github'' = None \<and>
   assemble_registry ''https://github.com/owner/.github'' = Some (''owner'', ''.github'')"
  by code_simp

text \<open>
  C7. A registry locator that is not of the supported form (see \<^const>\<open>github_locator\<close>)
  makes the assembler return at once: nothing is collected and no request is made,
  whatever the categories are.
\<close>

theorem unsupported_registry_fails_fast:
  "\<not> github_locator (registry config) \<Longrightarrow>
     assembleFromRemote web cats config = \<lparr>collected = [], fetched = [], crashed = False\<rparr>"
  unfolding assemble_registry_iff[symmetric]
  by (auto simp: assembleFromRemote_def split: option.splits)

theorem unsupported_registry_fails_fast_witness:
  "\<not> github_locator (registry unsupported_config) \<and>
   assembleFromRemote example_network [''cat''] unsupported_config
     = \<lparr>collected = [], fetched = [], crashed = False\<rparr>"
proof -
  have "assemble_registry (registry unsupported_config) = None" by code_simp
  then have h: "\<not> github_locator (registry unsupported_config)"
    unfolding assemble_registry_iff[symmetric] by simp
  from h unsupported_registry_fails_fast[OF h, of example_network "[''cat'']"]
  show ?thesis by (intro conjI)
qed

section \<open>Properties of the version reconciler\<close>

lemma collect_updates_iff:
  "u \<in> set (collect_updates rm entries) \<longleftrightarrow>
     (\<exists>cc rc. (upd_category u, cc) \<in> set entries \<and> enabled cc \<and>
        remote_lookup rm (upd_category u) = Some rc \<and>
        truthy (version rc) \<and> truthy (tag_prefix rc) \<and>
        upd_from u = or_else (ref cc) ''main'' \<and>
        upd_to u = or_else (tag_prefix rc) [] @ or_else (version rc) [] \<and>
        upd_from u \<noteq> upd_to u)"
proof (induction entries)
  case Nil
  then show ?case by simp
next
  case (Cons e entries)
  obtain cat cc where e: "e = (cat, cc)" by (cases e)
  show ?case
    unfolding e using Cons.IH
    by (cases u) (auto simp: Let_def split: option.splits)
qed

lemma declined_keeps_config:
  "answer \<noteq> Some True \<Longrightarrow>
     config_after (checkForUpdates web answer writable config) = config \<and>
     saved (checkForUpdates web answer writable config) = None"
  by (auto simp: checkForUpdates_def Let_def split: option.splits response.splits)

lemma proposed_is_collect_updates:
  assumes "reconcile_registry (registry config) = Some (owner, repo)"
    and "repo_info web (''https://api.github.com/repos/'' @ owner @ ''/'' @ repo) = Ok_body branch"
    and "metadata_json web (''https://raw.githubusercontent.com/'' @ owner @ ''/'' @ repo @ ''/''
           @ or_else branch ''main'' @ ''/skills/metadata.json'') = Ok_body remoteMeta"
  shows "proposed (checkForUpdates web answer writable config) = collect_updates remoteMeta (skills config)"
  using assms by (auto simp: checkForUpdates_def Let_def split: option.splits)

text \<open>
  C4, as the code has it. For an enabled category whose remote metadata gives a non-empty
  \<open>version\<close> and a non-empty \<open>tag_prefix\<close>, the update from the current ref (\<open>main\<close> when
  the ref is unset or empty) to \<open>tag_prefix + version\<close> is among the candidates exactly
  when the two differ. A category whose remote metadata is missing, or gives no or an
  empty \<open>version\<close> or \<open>tag_prefix\<close>, is never a candidate. Once the metadata is fetched,
  the candidates of \<open>checkForUpdates\<close> are those of the loop. If the user declines, the
  configuration is returned as it was and nothing is written back.
\<close>

theorem update_candidates:
  "((cat, catConfig) \<in> set (skills config) \<and> enabled catConfig \<and>
    remote_lookup remoteMeta cat = Some remoteCat \<and>
    version remoteCat = Some v \<and> tag_prefix remoteCat = Some p \<and> v \<noteq> [] \<and> p \<noteq> [] \<longrightarrow>
      (Update cat (or_else (ref catConfig) ''main'') (p @ v)
         \<in> set (collect_updates remoteMeta (skills config))
       \<longleftrightarrow> or_else (ref catConfig) ''main'' \<noteq> p @ v)) \<and>
   ((\<forall>rc. remote_lookup remoteMeta cat = Some rc \<longrightarrow>
           \<not> truthy (version rc) \<or> \<not> truthy (tag_prefix rc)) \<longrightarrow>
      (\<forall>u \<in> set (collect_updates remoteMeta (skills config)). upd_category u \<noteq> cat)) \<and>
   (reconcile_registry (registry config) = Some (owner, repo) \<and>
    repo_info web (''https://api.github.com/repos/'' @ owner @ ''/'' @ repo) = Ok_body branch \<and>
    metadata_json web (''https://raw.githubusercontent.com/'' @ owner @ ''/'' @ repo @ ''/''
           @ or_else branch ''main'' @ ''/skills/metadata.json'') = Ok_body remoteMeta \<longrightarrow>
      proposed (checkForUpdates web answer writable config)
        = collect_updates remoteMeta (skills config)) \<and>
   (answer = Some False \<longrightarrow>
      config_after (checkForUpdates web answer writable config) = config \<and>
      saved (checkForUpdates web answer writable config) = None)"
proof (intro conjI impI)
  assume a: "(cat, catConfig) \<in> set (skills config) \<and> enabled catConfig \<and>
    remote_lookup remoteMeta cat = Some remoteCat \<and>
    version remoteCat = Some v \<and> tag_prefix remoteCat = Some p \<and> v \<noteq> [] \<and> p \<noteq> []"
  then show "Update cat (or_else (ref catConfig) ''main'') (p @ v)
         \<in> set (collect_updates remoteMeta (skills config))
       \<longleftrightarrow> or_else (ref catConfig) ''main'' \<noteq> p @ v"
    unfolding collect_updates_iff by (auto simp: truthy_def or_else_def)
next
  assume "\<forall>rc. remote_lookup remoteMeta cat = Some rc \<longrightarrow>
           \<not> truthy (version rc) \<or> \<not> truthy (tag_prefix rc)"
  then show "\<forall>u \<in> set (collect_updates remoteMeta (skills config)). upd_category u \<noteq> cat"
    by (auto simp: collect_updates_iff)
next
  assume "reconcile_registry (registry config) = Some (owner, repo) \<and>
    repo_info web (''https://api.github.com/repos/'' @ owner @ ''/'' @ repo) = Ok_body branch \<and>
    metadata_json web (''https://raw.githubusercontent.com/'' @ owner @ ''/'' @ repo @ ''/''
           @ or_else branch ''main'' @ ''/skills/metadata.json'') = Ok_body remoteMeta"
  then show "proposed (checkForUpdates web answer writable config)
        = collect_updates remoteMeta (skills config)"
    using proposed_is_collect_updates by simp
next
  assume "answer = Some False"
  then have "answer \<noteq> Some True" by simp
  then show "config_after (checkForUpdates web answer writable config) = config"
    using declined_keeps_config by simp
next
  assume "answer = Some False"
  then have "answer \<noteq> Some True" by simp
  then show "saved (checkForUpdates web answer writable config) = None"
    using declined_keeps_config by simp
qed

theorem update_candidates_witness:
  "Update ''cat'' ''v1.0.0'' ''v2.0.0'' \<in> set (collect_updates example_metadata (skills example_config)) \<and>
   proposed (checkForUpdates example_network (Some False) True example_config)
     = collect_updates example_metadata (skills example_config) \<and>
   config_after (checkForUpdates example_network (Some False) True example_config) = example_config \<and>
   saved (checkForUpdates example_network (Some False) True example_config) = None"
proof -
  have r: "reconcile_registry (registry example_config) = Some (''owner'', ''repo'')"
    by code_simp
  show ?thesis
    using r update_candidates[where config = example_config and web = example_network
        and answer = "Some False" and writable = True and cat = "''cat''"
        and catConfig = example_category
        and remoteMeta = example_metadata
        and remoteCat = "\<lparr>version = Some ''2.0.0'', tag_prefix = Some ''v''\<rparr>"
        and v = "''2.0.0''" and p = "''v''" and owner = "''owner''" and repo = "''repo''"
        and branch = "Some ''main''"]
    by (simp add: example_config_def example_category_def example_metadata_def
        example_network_def remote_lookup_def or_else_def truthy_def)
qed

theorem empty_tag_prefix_is_never_proposed:
  "remote_lookup \<lparr>categories = Some [(''cat'', \<lparr>version = Some ''2.0.0'', tag_prefix = Some []\<rparr>)]\<rparr> ''cat''
     = Some \<lparr>version = Some ''2.0.0'', tag_prefix = Some []\<rparr> \<and>
   or_else (ref (snd (hd (skills example_config)))) ''main'' \<noteq> [] @ ''2.0.0'' \<and>
   collect_updates \<lparr>categories = Some [(''cat'', \<lparr>version = Some ''2.0.0'', tag_prefix = Some []\<rparr>)]\<rparr>
     (skills example_config) = []"
  by code_simp

section \<open>Properties of the skill assembler\<close>

lemma replace_first_prefix:
  "startsWith p pre \<Longrightarrow> replace_first pre p = drop (length pre) p"
  by (cases p) (auto simp: startsWith_def)

lemma fetch_step:
  assumes "startsWith (path f) (skill_prefix cat s)"
  shows "(isSupported (entry_name cat s f) \<and> type f = ''blob'') = eligible_entry cat s f"
    and "replace_first (skill_prefix cat s) (path f) = entry_name cat s f"
  using assms by (auto simp: replace_first_prefix eligible_entry_def entry_name_def isSupported_def)

lemma fetch_files_Cons:
  assumes "startsWith (path f) (skill_prefix cat s)"
  shows "fetch_files web raw cat s (f # src) =
     (if eligible_entry cat s f then
        (case raw_file web (entry_url raw cat s f) of
           Rejected \<Rightarrow> ([], [entry_request raw cat s f], True)
         | Not_ok \<Rightarrow>
             (case fetch_files web raw cat s src of
                (got, reqs, threw) \<Rightarrow> (got, entry_request raw cat s f # reqs, threw))
         | Ok_body text \<Rightarrow>
             (case fetch_files web raw cat s src of
                (got, reqs, threw) \<Rightarrow>
                  (\<lparr>name = entry_name cat s f, content = text\<rparr> # got,
                   entry_request raw cat s f # reqs, threw)))
      else fetch_files web raw cat s src)"
  by (auto simp: Let_def fetch_step[OF assms] entry_url_def entry_request_def
      split: response.splits)

lemma fetch_files_no_reject:
  assumes "\<forall>f \<in> set src. startsWith (path f) (skill_prefix cat s)"
    and "\<forall>f \<in> set src. eligible_entry cat s f \<longrightarrow> raw_file web (entry_url raw cat s f) \<noteq> Rejected"
  shows "fetch_files web raw cat s src =
           (fetched_ok web raw cat s (filter (eligible_entry cat s) src),
            map (entry_request raw cat s) (filter (eligible_entry cat s) src), False)"
  using assms
proof (induction src)
  case Nil
  then show ?case by simp
next
  case (Cons f src)
  then have pre: "startsWith (path f) (skill_prefix cat s)" by simp
  from Cons have IH: "fetch_files web raw cat s src =
           (fetched_ok web raw cat s (filter (eligible_entry cat s) src),
            map (entry_request raw cat s) (filter (eligible_entry cat s) src), False)" by simp
  show ?case
  proof (cases "eligible_entry cat s f")
    case False
    then show ?thesis using IH by (simp add: fetch_files_Cons[OF pre] del: fetch_files.simps)
  next
    case True
    with Cons.prems have "raw_file web (entry_url raw cat s f) \<noteq> Rejected" by simp
    then show ?thesis using True IH
      by (cases "raw_file web (entry_url raw cat s f)")
         (simp_all add: fetch_files_Cons[OF pre] del: fetch_files.simps)
  qed
qed

lemma fetch_files_sound:
  assumes "\<forall>f \<in> set src. startsWith (path f) (skill_prefix cat s)"
    and "fetch_files web raw cat s src = (got, reqs, threw)"
  shows "(\<forall>r \<in> set reqs. \<exists>f \<in> set src. eligible_entry cat s f \<and> r = entry_request raw cat s f) \<and>
         (\<forall>file \<in> set got. \<exists>f \<in> set src. eligible_entry cat s f \<and>
              name file = entry_name cat s f \<and>
              raw_file web (entry_url raw cat s f) = Ok_body (content file))"
  using assms
proof (induction src arbitrary: got reqs threw)
  case Nil
  then show ?case by simp
next
  case (Cons f src)
  then have pre: "startsWith (path f) (skill_prefix cat s)" by simp
  obtain got' reqs' threw' where rec: "fetch_files web raw cat s src = (got', reqs', threw')"
    by (cases "fetch_files web raw cat s src") auto
  from Cons.IH[OF _ rec] Cons.prems(1)
  have IH: "(\<forall>r \<in> set reqs'. \<exists>f \<in> set src. eligible_entry cat s f \<and> r = entry_request raw cat s f) \<and>
         (\<forall>file \<in> set got'. \<exists>f \<in> set src. eligible_entry cat s f \<and>
              name file = entry_name cat s f \<and>
              raw_file web (entry_url raw cat s f) = Ok_body (content file))" by simp
  show ?case
  proof (cases "eligible_entry cat s f")
    case False
    then have "fetch_files web raw cat s (f # src) = (got', reqs', threw')"
      using rec by (simp add: fetch_files_Cons[OF pre] del: fetch_files.simps)
    with Cons.prems(2) IH show ?thesis by auto
  next
    case True
    show ?thesis
    proof (cases "raw_file web (entry_url raw cat s f)")
      case Rejected
      then have "fetch_files web raw cat s (f # src) = ([], [entry_request raw cat s f], True)"
        using True by (simp add: fetch_files_Cons[OF pre] del: fetch_files.simps)
      with Cons.prems(2) True show ?thesis by auto
    next
      case Not_ok
      then have "fetch_files web raw cat s (f # src) = (got', entry_request raw cat s f # reqs', threw')"
        using True rec by (simp add: fetch_files_Cons[OF pre] del: fetch_files.simps)
      with Cons.prems(2) True IH show ?thesis by auto
    next
      case (Ok_body body)
      then have "fetch_files web raw cat s (f # src) =
          (\<lparr>name = entry_name cat s f, content = body\<rparr> # got', entry_request raw cat s f # reqs', threw')"
        using True rec by (simp add: fetch_files_Cons[OF pre] del: fetch_files.simps)
      with Cons.prems(2) True IH Ok_body show ?thesis by auto
    qed
  qed
qed

lemma skill_entries_of_source:
  "filter (eligible_entry cat s) (filter (\<lambda>f. startsWith (path f) (skill_prefix cat s)) allFiles)
     = skill_entries cat s allFiles"
  unfolding skill_entries_def filter_filter
  by (rule filter_cong) (auto simp: eligible_entry_def)

lemma expected_when_skipped:
  assumes "skipped_by_filters cc s"
  shows "expected_skill web raw cat cc allFiles s = []"
    and "expected_requests raw cat cc allFiles s = []"
  using assms by (simp_all add: expected_skill_def expected_requests_def)

lemma expected_when_kept:
  assumes "\<not> skipped_by_filters cc s"
  shows "expected_skill web raw cat cc allFiles s =
           (if fetched_ok web raw cat s (skill_entries cat s allFiles) \<noteq> []
            then [\<lparr>category = cat, skill = s,
                   files = fetched_ok web raw cat s (skill_entries cat s allFiles)\<rparr>]
            else [])"
    and "expected_requests raw cat cc allFiles s =
           map (entry_request raw cat s) (skill_entries cat s allFiles)"
  using assms by (simp_all add: expected_skill_def expected_requests_def)

lemma collect_skills_no_reject:
  assumes "\<forall>s \<in> set names. \<not> skipped_by_filters cc s \<longrightarrow>
             (\<forall>f \<in> set allFiles. eligible_entry cat s f \<longrightarrow>
                raw_file web (entry_url raw cat s f) \<noteq> Rejected)"
  shows "collect_skills web raw cat cc allFiles names =
           (concat (map (expected_skill web raw cat cc allFiles) names),
            concat (map (expected_requests raw cat cc allFiles) names), False)"
  using assms
proof (induction names)
  case Nil
  then show ?case by simp
next
  case (Cons s names)
  then have IH: "collect_skills web raw cat cc allFiles names =
           (concat (map (expected_skill web raw cat cc allFiles) names),
            concat (map (expected_requests raw cat cc allFiles) names), False)" by simp
  show ?case
  proof (cases "skipped_by_filters cc s")
    case True
    then show ?thesis using IH by (simp add: expected_when_skipped)
  next
    case False
    let ?src = "filter (\<lambda>f. startsWith (path f) (skill_prefix cat s)) allFiles"
    have "fetch_files web raw cat s ?src =
           (fetched_ok web raw cat s (filter (eligible_entry cat s) ?src),
            map (entry_request raw cat s) (filter (eligible_entry cat s) ?src), False)"
      using Cons.prems False by (intro fetch_files_no_reject) auto
    then have "fetch_files web raw cat s ?src =
           (fetched_ok web raw cat s (skill_entries cat s allFiles),
            map (entry_request raw cat s) (skill_entries cat s allFiles), False)"
      by (simp only: skill_entries_of_source)
    then show ?thesis using False IH
      by (simp add: expected_when_kept Let_def)
  qed
qed

lemma collect_skills_sound:
  assumes "collect_skills web raw cat cc allFiles names = (col, reqs, threw)"
  shows "(\<forall>item \<in> set col. category item = cat \<and> skill item \<in> set names \<and>
            \<not> skipped_by_filters cc (skill item) \<and> files item \<noteq> [] \<and>
            (\<forall>file \<in> set (files item). \<exists>f \<in> set allFiles.
                eligible_entry cat (skill item) f \<and> name file = entry_name cat (skill item) f \<and>
                raw_file web (entry_url raw cat (skill item) f) = Ok_body (content file))) \<and>
         (\<forall>r \<in> set reqs. \<exists>s \<in> set names. \<not> skipped_by_filters cc s \<and>
            (\<exists>f \<in> set allFiles. eligible_entry cat s f \<and> r = entry_request raw cat s f))"
  using assms
proof (induction names arbitrary: col reqs threw)
  case Nil
  then show ?case by simp
next
  case (Cons s names)
  obtain col' reqs' threw' where rec: "collect_skills web raw cat cc allFiles names = (col', reqs', threw')"
    by (cases "collect_skills web raw cat cc allFiles names") auto
  note IH = Cons.IH[OF rec]
  show ?case
  proof (cases "skipped_by_filters cc s")
    case True
    with Cons.prems rec have "col = col'" "reqs = reqs'" by simp_all
    with IH show ?thesis by auto
  next
    case False
    let ?src = "filter (\<lambda>f. startsWith (path f) (skill_prefix cat s)) allFiles"
    obtain got freqs fthrew where ff: "fetch_files web raw cat s ?src = (got, freqs, fthrew)"
      by (cases "fetch_files web raw cat s ?src") auto
    have "\<forall>f \<in> set ?src. startsWith (path f) (skill_prefix cat s)" by simp
    from fetch_files_sound[OF this ff]
    have fs: "(\<forall>r \<in> set freqs. \<exists>f \<in> set allFiles. eligible_entry cat s f \<and> r = entry_request raw cat s f)"
      "(\<forall>file \<in> set got. \<exists>f \<in> set allFiles. eligible_entry cat s f \<and>
              name file = entry_name cat s f \<and>
              raw_file web (entry_url raw cat s f) = Ok_body (content file))"
      by auto
    show ?thesis
    proof (cases fthrew)
      case True
      with Cons.prems False ff have "col = []" "reqs = freqs" by (simp_all add: Let_def)
      with fs False show ?thesis by auto
    next
      case nothrow: False
      with Cons.prems False ff rec
      have c: "col = (if got \<noteq> [] then [\<lparr>category = cat, skill = s, files = got\<rparr>] else []) @ col'"
        and r: "reqs = freqs @ reqs'" by (simp_all add: Let_def)
      have one: "\<forall>item \<in> set col. category item = cat \<and> skill item \<in> set (s # names) \<and>
            \<not> skipped_by_filters cc (skill item) \<and> files item \<noteq> [] \<and>
            (\<forall>file \<in> set (files item). \<exists>f \<in> set allFiles.
                eligible_entry cat (skill item) f \<and> name file = entry_name cat (skill item) f \<and>
                raw_file web (entry_url raw cat (skill item) f) = Ok_body (content file))"
        unfolding c using IH fs(2) False by auto
      have two: "\<forall>r \<in> set reqs. \<exists>s' \<in> set (s # names). \<not> skipped_by_filters cc s' \<and>
            (\<exists>f \<in> set allFiles. eligible_entry cat s' f \<and> r = entry_request raw cat s' f)"
        unfolding r using IH fs(1) False by auto
      from one two show ?thesis by simp
    qed
  qed
qed

lemma assemble_category_sound:
  assumes "assemble_category web owner repo cat cc = (col, reqs)"
  shows "(\<forall>item \<in> set col. category item = cat \<and> \<not> skipped_by_filters cc (skill item)) \<and>
         (\<forall>c s rel url. Get_file c s rel url \<in> set reqs \<longrightarrow> c = cat \<and> \<not> skipped_by_filters cc s)"
proof (cases "git_tree web (tree_url owner repo (or_else (ref cc) ''main''))")
  case Rejected
  with assms show ?thesis by (auto simp: assemble_category_def Let_def)
next
  case Not_ok
  with assms show ?thesis by (auto simp: assemble_category_def Let_def)
next
  case (Ok_body tree)
  define allFiles where "allFiles = (case tree of None \<Rightarrow> [] | Some items \<Rightarrow> items)"
  define raw where "raw = raw_base_url owner repo (or_else (ref cc) ''main'')"
  obtain col' reqs' threw where cs:
    "collect_skills web raw cat cc allFiles (skillFolders cat allFiles) = (col', reqs', threw)"
    by (cases "collect_skills web raw cat cc allFiles (skillFolders cat allFiles)") auto
  from assms Ok_body cs have c: "col = col'"
    and r: "reqs = Get_tree (tree_url owner repo (or_else (ref cc) ''main'')) # reqs'"
    by (simp_all add: assemble_category_def Let_def allFiles_def raw_def)
  from collect_skills_sound[OF cs] show ?thesis
    unfolding c r by (auto simp: entry_request_def)
qed

lemma assemble_loop_sound:
  assumes "assemble_loop web owner repo config cats = (col, reqs, threw)"
  shows "(\<forall>item \<in> set col. \<exists>cc. map_of (skills config) (category item) = Some cc \<and>
            \<not> skipped_by_filters cc (skill item)) \<and>
         (\<forall>c s rel url. Get_file c s rel url \<in> set reqs \<longrightarrow>
            (\<exists>cc. map_of (skills config) c = Some cc \<and> \<not> skipped_by_filters cc s))"
  using assms
proof (induction cats arbitrary: col reqs threw)
  case Nil
  then show ?case by simp
next
  case (Cons cat cats)
  show ?case
  proof (cases "map_of (skills config) cat")
    case None
    with Cons.prems show ?thesis by simp
  next
    case (Some cc)
    obtain found freqs where ac: "assemble_category web owner repo cat cc = (found, freqs)"
      by (cases "assemble_category web owner repo cat cc") auto
    obtain col' reqs' threw' where rec: "assemble_loop web owner repo config cats = (col', reqs', threw')"
      by (cases "assemble_loop web owner repo config cats") auto
    from Cons.prems Some ac rec have c: "col = found @ col'" and r: "reqs = freqs @ reqs'"
      by simp_all
    note here = assemble_category_sound[OF ac]
    note later = Cons.IH[OF rec]
    show ?thesis
    proof (intro conjI ballI allI impI)
      fix item
      assume "item \<in> set col"
      then consider "item \<in> set found" | "item \<in> set col'" unfolding c by auto
      then show "\<exists>cc. map_of (skills config) (category item) = Some cc \<and>
            \<not> skipped_by_filters cc (skill item)"
      proof cases
        case 1
        with here have "category item = cat" "\<not> skipped_by_filters cc (skill item)" by auto
        with Some show ?thesis by simp
      next
        case 2
        with later show ?thesis by blast
      qed
    next
      fix c s rel url
      assume "Get_file c s rel url \<in> set reqs"
      then consider "Get_file c s rel url \<in> set freqs" | "Get_file c s rel url \<in> set reqs'"
        unfolding r by auto
      then show "\<exists>cc. map_of (skills config) c = Some cc \<and> \<not> skipped_by_filters cc s"
      proof cases
        case 1
        with here have "c = cat" "\<not> skipped_by_filters cc s" by blast+
        with Some show ?thesis by simp
      next
        case 2
        with later show ?thesis by blast
      qed
    qed
  qed
qed

text \<open>
  C2. Whatever is fetched or collected for a skill folder of a category has passed both
  filters of that category: its name is in the \<open>include\<close> list when there is one, and it
  is not in the \<open>exclude\<close> list when there is one. So a name missing from a present
  \<open>include\<close> list is skipped whatever \<open>exclude\<close> says, and a name in the \<open>exclude\<close> list is
  skipped even when \<open>include\<close> names it. The writer writes files of collected skills
  only (\<open>write_calls_sources\<close> below). With \<open>include = [a, b]\<close> and \<open>exclude = [b]\<close> and
  the folders \<open>a\<close>, \<open>b\<close> and \<open>c\<close> in the listing, only skill \<open>a\<close> is fetched and collected.
\<close>

theorem include_then_exclude:
  assumes "map_of (skills config) cat = Some categoryConfig"
    and "(\<exists>rel url. Get_file cat s rel url \<in> set (fetched (assembleFromRemote web cats config))) \<or>
         (\<exists>item \<in> set (collected (assembleFromRemote web cats config)).
            category item = cat \<and> skill item = s)"
  shows "(\<forall>inc. include' categoryConfig = Some inc \<longrightarrow> s \<in> set inc) \<and>
         (\<forall>exc. exclude categoryConfig = Some exc \<longrightarrow> s \<notin> set exc)"
proof (cases "assemble_registry (registry config)")
  case None
  with assms(2) show ?thesis by (simp add: assembleFromRemote_def)
next
  case (Some pair)
  obtain owner repo where pair: "pair = (owner, repo)" by (cases pair)
  obtain col reqs threw where al: "assemble_loop web owner repo config cats = (col, reqs, threw)"
    by (cases "assemble_loop web owner repo config cats") auto
  from Some pair al have f: "fetched (assembleFromRemote web cats config) = reqs"
    and c: "set (collected (assembleFromRemote web cats config)) \<subseteq> set col"
    by (simp_all add: assembleFromRemote_def)
  from assms(2) f c assemble_loop_sound[OF al] assms(1)
  have "\<not> skipped_by_filters categoryConfig s" by fastforce
  then show ?thesis by (auto simp: skipped_by_filters_def split: option.splits if_splits)
qed

theorem include_then_exclude_witness:
  "collected (assembleFromRemote filter_network [''cat''] filter_config)
     = [\<lparr>category = ''cat'', skill = ''a'',
         files = [\<lparr>name = ''SKILL.md'', content = ''remote text''\<rparr>]\<rparr>] \<and>
   fetched (assembleFromRemote filter_network [''cat''] filter_config)
     = [Get_tree ''https://api.github.com/repos/owner/repo/git/trees/main?recursive=1'',
        Get_file ''cat'' ''a'' ''SKILL.md''
          ''https://raw.githubusercontent.com/owner/repo/main/skills/cat/a/SKILL.md''] \<and>
   ''a'' \<in> set [''a'', ''b''] \<and> ''a'' \<notin> set [''b'']"
proof -
  have c: "collected (assembleFromRemote filter_network [''cat''] filter_config)
     = [\<lparr>category = ''cat'', skill = ''a'',
         files = [\<lparr>name = ''SKILL.md'', content = ''remote text''\<rparr>]\<rparr>]"
    by code_simp
  have f: "fetched (assembleFromRemote filter_network [''cat''] filter_config)
     = [Get_tree ''https://api.github.com/repos/owner/repo/git/trees/main?recursive=1'',
        Get_file ''cat'' ''a'' ''SKILL.md''
          ''https://raw.githubusercontent.com/owner/repo/main/skills/cat/a/SKILL.md'']"
    by code_simp
  have m: "map_of (skills filter_config) ''cat'' = Some filter_category"
    by (simp add: filter_config_def)
  have h: "(\<exists>rel url. Get_file ''cat'' ''a'' rel url
              \<in> set (fetched (assembleFromRemote filter_network [''cat''] filter_config))) \<or>
           (\<exists>item \<in> set (collected (assembleFromRemote filter_network [''cat''] filter_config)).
              category item = ''cat'' \<and> skill item = ''a'')"
    unfolding c by simp
  from include_then_exclude[OF m h]
  have "''a'' \<in> set [''a'', ''b''] \<and> ''a'' \<notin> set [''b'']"
    by (simp add: filter_category_def)
  with c f show ?thesis by (intro conjI) simp_all
qed

lemma assemble_category_tree:
  assumes "git_tree web (tree_url owner repo (or_else (ref cc) ''main'')) = Ok_body tree"
    and "allFiles = (case tree of None \<Rightarrow> [] | Some items \<Rightarrow> items)"
    and "raw = raw_base_url owner repo (or_else (ref cc) ''main'')"
    and "assemble_category web owner repo cat cc = (col, reqs)"
  shows "\<exists>reqs' threw.
           collect_skills web raw cat cc allFiles (skillFolders cat allFiles) = (col, reqs', threw) \<and>
           reqs = Get_tree (tree_url owner repo (or_else (ref cc) ''main'')) # reqs'"
  using assms by (auto simp: assemble_category_def Let_def split: prod.splits)

text \<open>
  C5, as the code has it. For a category whose tree listing arrived: every raw file
  request is for an eligible entry of a skill folder that passed the filters, every
  collected file is such an entry whose fetch answered \<open>ok\<close>, and, as long as no fetch of
  the category is rejected, every eligible entry of every such skill folder is
  requested. A rejected fetch ends the category, so the entries after it are not
  requested.
\<close>

theorem only_eligible_entries_are_fetched:
  assumes "git_tree web (tree_url owner repo (or_else (ref cc) ''main'')) = Ok_body tree"
    and "allFiles = (case tree of None \<Rightarrow> [] | Some items \<Rightarrow> items)"
    and "raw = raw_base_url owner repo (or_else (ref cc) ''main'')"
    and "assemble_category web owner repo cat cc = (col, reqs)"
  shows "(\<forall>c s rel url. Get_file c s rel url \<in> set reqs \<longrightarrow>
            c = cat \<and> s \<in> set (skillFolders cat allFiles) \<and> \<not> skipped_by_filters cc s \<and>
            (\<exists>f \<in> set allFiles. eligible_entry cat s f \<and>
               Get_file c s rel url = entry_request raw cat s f)) \<and>
         (\<forall>item \<in> set col. \<forall>file \<in> set (files item). \<exists>f \<in> set allFiles.
            eligible_entry cat (skill item) f \<and> name file = entry_name cat (skill item) f \<and>
            raw_file web (entry_url raw cat (skill item) f) = Ok_body (content file)) \<and>
         ((\<forall>s \<in> set (skillFolders cat allFiles). \<not> skipped_by_filters cc s \<longrightarrow>
             (\<forall>f \<in> set allFiles. eligible_entry cat s f \<longrightarrow>
                raw_file web (entry_url raw cat s f) \<noteq> Rejected)) \<longrightarrow>
          (\<forall>s \<in> set (skillFolders cat allFiles). \<not> skipped_by_filters cc s \<longrightarrow>
             (\<forall>f \<in> set allFiles. eligible_entry cat s f \<longrightarrow>
                entry_request raw cat s f \<in> set reqs)))"
proof -
  from assemble_category_tree[OF assms] obtain reqs' threw where
    cs: "collect_skills web raw cat cc allFiles (skillFolders cat allFiles) = (col, reqs', threw)"
    and r: "reqs = Get_tree (tree_url owner repo (or_else (ref cc) ''main'')) # reqs'"
    by blast
  note sound = collect_skills_sound[OF cs]
  have one: "\<forall>c s rel url. Get_file c s rel url \<in> set reqs \<longrightarrow>
            c = cat \<and> s \<in> set (skillFolders cat allFiles) \<and> \<not> skipped_by_filters cc s \<and>
            (\<exists>f \<in> set allFiles. eligible_entry cat s f \<and>
               Get_file c s rel url = entry_request raw cat s f)"
  proof (intro allI impI)
    fix c s rel url
    assume "Get_file c s rel url \<in> set reqs"
    then have "Get_file c s rel url \<in> set reqs'" unfolding r by simp
    with sound obtain s' f where s': "s' \<in> set (skillFolders cat allFiles)"
      "\<not> skipped_by_filters cc s'" "f \<in> set allFiles" "eligible_entry cat s' f"
      "Get_file c s rel url = entry_request raw cat s' f" by blast
    from s'(5) have "c = cat" "s = s'" by (simp_all add: entry_request_def)
    with s' show "c = cat \<and> s \<in> set (skillFolders cat allFiles) \<and> \<not> skipped_by_filters cc s \<and>
            (\<exists>f \<in> set allFiles. eligible_entry cat s f \<and>
               Get_file c s rel url = entry_request raw cat s f)" by blast
  qed
  have two: "\<forall>item \<in> set col. \<forall>file \<in> set (files item). \<exists>f \<in> set allFiles.
            eligible_entry cat (skill item) f \<and> name file = entry_name cat (skill item) f \<and>
            raw_file web (entry_url raw cat (skill item) f) = Ok_body (content file)"
    using sound by blast
  have three: "(\<forall>s \<in> set (skillFolders cat allFiles). \<not> skipped_by_filters cc s \<longrightarrow>
             (\<forall>f \<in> set allFiles. eligible_entry cat s f \<longrightarrow>
                raw_file web (entry_url raw cat s f) \<noteq> Rejected)) \<longrightarrow>
          (\<forall>s \<in> set (skillFolders cat allFiles). \<not> skipped_by_filters cc s \<longrightarrow>
             (\<forall>f \<in> set allFiles. eligible_entry cat s f \<longrightarrow>
                entry_request raw cat s f \<in> set reqs))"
  proof (intro impI ballI)
    fix s f
    assume nr: "\<forall>s \<in> set (skillFolders cat allFiles). \<not> skipped_by_filters cc s \<longrightarrow>
             (\<forall>f \<in> set allFiles. eligible_entry cat s f \<longrightarrow>
                raw_file web (entry_url raw cat s f) \<noteq> Rejected)"
      and s: "s \<in> set (skillFolders cat allFiles)" "\<not> skipped_by_filters cc s"
      and f: "f \<in> set allFiles" "eligible_entry cat s f"
    from collect_skills_no_reject[OF nr] cs
    have "reqs' = concat (map (expected_requests raw cat cc allFiles) (skillFolders cat allFiles))"
      by simp
    moreover have "entry_request raw cat s f \<in> set (expected_requests raw cat cc allFiles s)"
      using s(2) f by (simp add: expected_when_kept skill_entries_def)
    ultimately have "entry_request raw cat s f \<in> set reqs'" using s(1) by auto
    then show "entry_request raw cat s f \<in> set reqs" unfolding r by simp
  qed
  from one two three show ?thesis by (intro conjI)
qed

theorem only_eligible_entries_are_fetched_witness:
  "entry_request (raw_base_url ''owner'' ''repo'' ''v1.0.0'') ''cat'' ''one''
      \<lparr>path = ''skills/cat/one/scripts/b.sh'', type = ''blob''\<rparr>
     \<in> set (snd (assemble_category flaky_network ''owner'' ''repo'' ''cat'' example_category))"
proof -
  let ?raw = "raw_base_url ''owner'' ''repo'' ''v1.0.0''"
  let ?f = "\<lparr>path = ''skills/cat/one/scripts/b.sh'', type = ''blob''\<rparr>"
  have t: "git_tree flaky_network
             (tree_url ''owner'' ''repo'' (or_else (ref example_category) ''main''))
           = Ok_body (Some broken_tree)"
    by (simp add: flaky_network_def)
  have a: "broken_tree = (case Some broken_tree of None \<Rightarrow> [] | Some items \<Rightarrow> items)" by simp
  have r: "?raw = raw_base_url ''owner'' ''repo'' (or_else (ref example_category) ''main'')"
    by (simp add: example_category_def or_else_def)
  have nr: "\<forall>s \<in> set (skillFolders ''cat'' broken_tree). \<not> skipped_by_filters example_category s \<longrightarrow>
             (\<forall>f \<in> set broken_tree. eligible_entry ''cat'' s f \<longrightarrow>
                raw_file flaky_network (entry_url ?raw ''cat'' s f) \<noteq> Rejected)"
    by code_simp
  have s: "''one'' \<in> set (skillFolders ''cat'' broken_tree)" by code_simp
  have k: "\<not> skipped_by_filters example_category ''one''" by code_simp
  have i: "?f \<in> set broken_tree" by code_simp
  have e: "eligible_entry ''cat'' ''one'' ?f" by code_simp
  note inst = only_eligible_entries_are_fetched[OF t a r prod.collapse[symmetric]]
  note every = mp[OF conjunct2[OF conjunct2[OF inst]] nr]
  note mine = mp[OF bspec[OF every s] k]
  show ?thesis by (rule mp[OF bspec[OF mine i] e])
qed

theorem rejected_fetch_ends_the_category:
  "git_tree broken_network (tree_url ''owner'' ''repo'' ''v1.0.0'') = Ok_body (Some broken_tree) \<and>
   ''one'' \<in> set (skillFolders ''cat'' broken_tree) \<and>
   \<not> skipped_by_filters example_category ''one'' \<and>
   eligible_entry ''cat'' ''one'' \<lparr>path = ''skills/cat/one/scripts/b.sh'', type = ''blob''\<rparr> \<and>
   entry_request (raw_base_url ''owner'' ''repo'' ''v1.0.0'') ''cat'' ''one''
      \<lparr>path = ''skills/cat/one/scripts/b.sh'', type = ''blob''\<rparr>
     \<notin> set (fetched (assembleFromRemote broken_network [''cat''] example_config))"
  by code_simp

lemma fetch_files_done:
  assumes "\<forall>f \<in> set src. startsWith (path f) (skill_prefix cat s)"
    and "fetch_files web raw cat s src = (got, reqs, False)"
  shows "got = fetched_ok web raw cat s (filter (eligible_entry cat s) src) \<and>
         (\<forall>f \<in> set src. eligible_entry cat s f \<longrightarrow>
            raw_file web (entry_url raw cat s f) \<noteq> Rejected)"
  using assms
proof (induction src arbitrary: got reqs)
  case Nil
  then show ?case by simp
next
  case (Cons f src)
  then have pre: "startsWith (path f) (skill_prefix cat s)" by simp
  from Cons.prems(1) have rest: "\<forall>f \<in> set src. startsWith (path f) (skill_prefix cat s)" by simp
  obtain got' reqs' threw' where rec: "fetch_files web raw cat s src = (got', reqs', threw')"
    by (cases "fetch_files web raw cat s src") auto
  show ?case
  proof (cases "eligible_entry cat s f")
    case False
    with Cons.prems(2) rec have "fetch_files web raw cat s src = (got, reqs, False)"
      by (simp add: fetch_files_Cons[OF pre] del: fetch_files.simps)
    from Cons.IH[OF rest this] False show ?thesis by simp
  next
    case True
    show ?thesis
    proof (cases "raw_file web (entry_url raw cat s f)")
      case Rejected
      with Cons.prems(2) True show ?thesis
        by (simp add: fetch_files_Cons[OF pre] del: fetch_files.simps)
    next
      case Not_ok
      with Cons.prems(2) True rec have "fetch_files web raw cat s src = (got, reqs', False)"
        by (simp add: fetch_files_Cons[OF pre] del: fetch_files.simps)
      from Cons.IH[OF rest this] True Not_ok show ?thesis by simp
    next
      case (Ok_body body)
      with Cons.prems(2) True rec
      have g: "got = \<lparr>name = entry_name cat s f, content = body\<rparr> # got'" and "threw' = False"
        by (simp_all add: fetch_files_Cons[OF pre] del: fetch_files.simps)
      with rec have "fetch_files web raw cat s src = (got', reqs', False)" by simp
      from Cons.IH[OF rest this] True Ok_body g show ?thesis by simp
    qed
  qed
qed

lemma collect_skills_items:
  assumes "collect_skills web raw cat cc allFiles names = (col, reqs, threw)"
  shows "\<forall>item \<in> set col.
           files item = fetched_ok web raw cat (skill item) (skill_entries cat (skill item) allFiles) \<and>
           (\<forall>f \<in> set allFiles. eligible_entry cat (skill item) f \<longrightarrow>
              raw_file web (entry_url raw cat (skill item) f) \<noteq> Rejected)"
  using assms
proof (induction names arbitrary: col reqs threw)
  case Nil
  then show ?case by simp
next
  case (Cons s names)
  obtain col' reqs' threw' where rec: "collect_skills web raw cat cc allFiles names = (col', reqs', threw')"
    by (cases "collect_skills web raw cat cc allFiles names") auto
  note IH = Cons.IH[OF rec]
  show ?case
  proof (cases "skipped_by_filters cc s")
    case True
    with Cons.prems rec have "col = col'" by simp
    with IH show ?thesis by simp
  next
    case False
    let ?src = "filter (\<lambda>f. startsWith (path f) (skill_prefix cat s)) allFiles"
    obtain got freqs fthrew where ff: "fetch_files web raw cat s ?src = (got, freqs, fthrew)"
      by (cases "fetch_files web raw cat s ?src") auto
    show ?thesis
    proof (cases fthrew)
      case True
      with Cons.prems False ff have "col = []" by (simp add: Let_def)
      then show ?thesis by simp
    next
      case nothrow: False
      with Cons.prems False ff rec
      have c: "col = (if got \<noteq> [] then [\<lparr>category = cat, skill = s, files = got\<rparr>] else []) @ col'"
        by (simp add: Let_def)
      have pre: "\<forall>f \<in> set ?src. startsWith (path f) (skill_prefix cat s)" by simp
      from ff nothrow have "fetch_files web raw cat s ?src = (got, freqs, False)" by simp
      note finished = fetch_files_done[OF pre this]
      from conjunct1[OF finished]
      have g: "got = fetched_ok web raw cat s (skill_entries cat s allFiles)"
        by (simp only: skill_entries_of_source)
      from conjunct2[OF finished]
      have nr: "\<forall>f \<in> set ?src. eligible_entry cat s f \<longrightarrow>
            raw_file web (entry_url raw cat s f) \<noteq> Rejected" .
      have nr': "\<forall>f \<in> set allFiles. eligible_entry cat s f \<longrightarrow>
            raw_file web (entry_url raw cat s f) \<noteq> Rejected"
        using nr by (auto simp: eligible_entry_def)
      show ?thesis unfolding c using IH g nr' by auto
    qed
  qed
qed

text \<open>
  C6, as the code has it. For a category whose tree listing arrived: a skill folder that
  is collected holds exactly the eligible files whose fetch answered \<open>ok\<close>, in the order
  of the listing, and at least one of them, so a skill none of whose fetches answered
  \<open>ok\<close> is not collected. A skill with an eligible file whose fetch is rejected is not
  collected, whatever its other fetches gave. When no fetch of the category is rejected,
  every skill folder that passed the filters and has a file fetched \<open>ok\<close> is collected.
\<close>

theorem fetched_skills_are_collected:
  assumes "git_tree web (tree_url owner repo (or_else (ref cc) ''main'')) = Ok_body tree"
    and "allFiles = (case tree of None \<Rightarrow> [] | Some items \<Rightarrow> items)"
    and "raw = raw_base_url owner repo (or_else (ref cc) ''main'')"
    and "assemble_category web owner repo cat cc = (col, reqs)"
    and "got = fetched_ok web raw cat s (skill_entries cat s allFiles)"
  shows "(\<forall>item \<in> set col. skill item = s \<longrightarrow> files item = got \<and> got \<noteq> []) \<and>
         ((\<exists>f \<in> set allFiles. eligible_entry cat s f \<and>
              raw_file web (entry_url raw cat s f) = Rejected) \<longrightarrow>
            (\<forall>item \<in> set col. skill item \<noteq> s)) \<and>
         ((\<forall>s' \<in> set (skillFolders cat allFiles). \<not> skipped_by_filters cc s' \<longrightarrow>
             (\<forall>f \<in> set allFiles. eligible_entry cat s' f \<longrightarrow>
                raw_file web (entry_url raw cat s' f) \<noteq> Rejected)) \<and>
          s \<in> set (skillFolders cat allFiles) \<and> \<not> skipped_by_filters cc s \<and> got \<noteq> [] \<longrightarrow>
            \<lparr>category = cat, skill = s, files = got\<rparr> \<in> set col)"
proof -
  from assemble_category_tree[OF assms(1-4)] obtain reqs' threw where
    cs: "collect_skills web raw cat cc allFiles (skillFolders cat allFiles) = (col, reqs', threw)"
    by blast
  note items = collect_skills_items[OF cs]
  note sound = collect_skills_sound[OF cs]
  have one: "\<forall>item \<in> set col. skill item = s \<longrightarrow> files item = got \<and> got \<noteq> []"
  proof (intro ballI impI)
    fix item
    assume i: "item \<in> set col" "skill item = s"
    with items have "files item = got" unfolding assms(5) by auto
    moreover from sound i(1) have "files item \<noteq> []" by blast
    ultimately show "files item = got \<and> got \<noteq> []" by simp
  qed
  have two: "(\<exists>f \<in> set allFiles. eligible_entry cat s f \<and>
              raw_file web (entry_url raw cat s f) = Rejected) \<longrightarrow>
            (\<forall>item \<in> set col. skill item \<noteq> s)"
    using items by blast
  have three: "(\<forall>s' \<in> set (skillFolders cat allFiles). \<not> skipped_by_filters cc s' \<longrightarrow>
             (\<forall>f \<in> set allFiles. eligible_entry cat s' f \<longrightarrow>
                raw_file web (entry_url raw cat s' f) \<noteq> Rejected)) \<and>
          s \<in> set (skillFolders cat allFiles) \<and> \<not> skipped_by_filters cc s \<and> got \<noteq> [] \<longrightarrow>
            \<lparr>category = cat, skill = s, files = got\<rparr> \<in> set col"
  proof
    assume a: "(\<forall>s' \<in> set (skillFolders cat allFiles). \<not> skipped_by_filters cc s' \<longrightarrow>
             (\<forall>f \<in> set allFiles. eligible_entry cat s' f \<longrightarrow>
                raw_file web (entry_url raw cat s' f) \<noteq> Rejected)) \<and>
          s \<in> set (skillFolders cat allFiles) \<and> \<not> skipped_by_filters cc s \<and> got \<noteq> []"
    then have nr: "\<forall>s' \<in> set (skillFolders cat allFiles). \<not> skipped_by_filters cc s' \<longrightarrow>
             (\<forall>f \<in> set allFiles. eligible_entry cat s' f \<longrightarrow>
                raw_file web (entry_url raw cat s' f) \<noteq> Rejected)"
      and sin: "s \<in> set (skillFolders cat allFiles)" and keep: "\<not> skipped_by_filters cc s"
      and ne: "got \<noteq> []" by simp_all
    from collect_skills_no_reject[OF nr] cs
    have col: "col = concat (map (expected_skill web raw cat cc allFiles) (skillFolders cat allFiles))"
      by simp
    have "\<lparr>category = cat, skill = s, files = got\<rparr>
        \<in> set (expected_skill web raw cat cc allFiles s)"
      using keep ne assms(5) by (simp add: expected_when_kept)
    with sin show "\<lparr>category = cat, skill = s, files = got\<rparr> \<in> set col"
      unfolding col by (auto intro: bexI[of _ s])
  qed
  from one two three show ?thesis by (intro conjI)
qed

theorem fetched_skills_are_collected_witness:
  "fetched_ok flaky_network (raw_base_url ''owner'' ''repo'' ''v1.0.0'') ''cat'' ''one''
       (skill_entries ''cat'' ''one'' broken_tree)
     = [\<lparr>name = ''SKILL.md'', content = ''remote text''\<rparr>,
        \<lparr>name = ''scripts/b.sh'', content = ''remote text''\<rparr>] \<and>
   \<lparr>category = ''cat'', skill = ''one'',
     files = [\<lparr>name = ''SKILL.md'', content = ''remote text''\<rparr>,
              \<lparr>name = ''scripts/b.sh'', content = ''remote text''\<rparr>]\<rparr>
     \<in> set (fst (assemble_category flaky_network ''owner'' ''repo'' ''cat'' example_category))"
proof -
  let ?raw = "raw_base_url ''owner'' ''repo'' ''v1.0.0''"
  let ?got = "[\<lparr>name = ''SKILL.md'', content = ''remote text''\<rparr>,
               \<lparr>name = ''scripts/b.sh'', content = ''remote text''\<rparr>]"
  have t: "git_tree flaky_network
             (tree_url ''owner'' ''repo'' (or_else (ref example_category) ''main''))
           = Ok_body (Some broken_tree)"
    by (simp add: flaky_network_def)
  have a: "broken_tree = (case Some broken_tree of None \<Rightarrow> [] | Some items \<Rightarrow> items)" by simp
  have r: "?raw = raw_base_url ''owner'' ''repo'' (or_else (ref example_category) ''main'')"
    by (simp add: example_category_def or_else_def)
  have nr: "\<forall>s \<in> set (skillFolders ''cat'' broken_tree). \<not> skipped_by_filters example_category s \<longrightarrow>
             (\<forall>f \<in> set broken_tree. eligible_entry ''cat'' s f \<longrightarrow>
                raw_file flaky_network (entry_url ?raw ''cat'' s f) \<noteq> Rejected)"
    by code_simp
  have s: "''one'' \<in> set (skillFolders ''cat'' broken_tree)" by code_simp
  have k: "\<not> skipped_by_filters example_category ''one''" by code_simp
  have g: "?got = fetched_ok flaky_network ?raw ''cat'' ''one'' (skill_entries ''cat'' ''one'' broken_tree)"
    by code_simp
  have n: "?got \<noteq> []" by simp
  note inst = fetched_skills_are_collected[OF t a r prod.collapse[symmetric] g]
  from nr s k n have pre:
    "(\<forall>s \<in> set (skillFolders ''cat'' broken_tree). \<not> skipped_by_filters example_category s \<longrightarrow>
             (\<forall>f \<in> set broken_tree. eligible_entry ''cat'' s f \<longrightarrow>
                raw_file flaky_network (entry_url ?raw ''cat'' s f) \<noteq> Rejected)) \<and>
     ''one'' \<in> set (skillFolders ''cat'' broken_tree) \<and>
     \<not> skipped_by_filters example_category ''one'' \<and> ?got \<noteq> []"
    by (intro conjI)
  from mp[OF conjunct2[OF conjunct2[OF inst]] pre] g show ?thesis by (intro conjI) simp_all
qed

theorem rejected_fetch_loses_the_skill:
  "eligible_entry ''cat'' ''one'' \<lparr>path = ''skills/cat/one/SKILL.md'', type = ''blob''\<rparr> \<and>
   raw_file broken_network
     (entry_url (raw_base_url ''owner'' ''repo'' ''v1.0.0'') ''cat'' ''one''
        \<lparr>path = ''skills/cat/one/SKILL.md'', type = ''blob''\<rparr>) = Ok_body ''remote text'' \<and>
   Get_file ''cat'' ''one'' ''SKILL.md''
       ''https://raw.githubusercontent.com/owner/repo/v1.0.0/skills/cat/one/SKILL.md''
     \<in> set (fetched (assembleFromRemote broken_network [''cat''] example_config)) \<and>
   collected (assembleFromRemote broken_network [''cat''] example_config) = []"
  by code_simp

section \<open>Properties of the target writer\<close>

lemma mkdirs_Some:
  "mkdirs s d = Some s' \<longleftrightarrow>
     (\<forall>a. prefix a d \<longrightarrow> \<not> is_file (s a)) \<and>
     s' = (\<lambda>q. if prefix q d then Some Dir else s q)"
  by (auto simp: mkdirs_def)

lemma mkdirs_None: "mkdirs s d = None \<longleftrightarrow> (\<exists>a. prefix a d \<and> is_file (s a))"
  by (auto simp: mkdirs_def)

lemma is_file_iff: "is_file x \<longleftrightarrow> (\<exists>body. x = Some (File body))"
  by (cases x rule: is_file.cases) auto

lemma read_file_iff: "read_file s q = (case s q of Some (File body) \<Rightarrow> Some body | _ \<Rightarrow> None)"
  by (simp add: read_file_def)

lemma mkdirs_keeps_files:
  assumes "mkdirs s d = Some s'" and "is_file (s q)"
  shows "s' q = s q"
  using assms unfolding mkdirs_Some by auto

lemma mkdirs_read: "mkdirs s d = Some s' \<Longrightarrow> read_file s' q = read_file s q"
  unfolding mkdirs_Some
  by (cases "s q" rule: is_file.cases) (auto simp: read_file_def)

lemma mkdirs_grows: "mkdirs s d = Some s' \<Longrightarrow> grows s s'"
  unfolding mkdirs_Some by (auto simp: grows_def)

lemma ensure_parent_cases:
  assumes "ensure_parent wd p s = Some s'"
  shows "s' = s \<or> mkdirs s (path_resolve wd (path_dirname p)) = Some s'"
  using assms by (auto simp: ensure_parent_def Let_def split: if_splits)

lemma ensure_parent_read: "ensure_parent wd p s = Some s' \<Longrightarrow> read_file s' q = read_file s q"
  using ensure_parent_cases mkdirs_read by blast

lemma ensure_parent_grows: "ensure_parent wd p s = Some s' \<Longrightarrow> grows s s'"
  using ensure_parent_cases[of wd p s s'] mkdirs_grows[of s _ s']
  by (auto simp: grows_def)

lemma ensure_parent_keeps_files:
  assumes "ensure_parent wd p s = Some s'" and "is_file (s q)"
  shows "s' q = s q"
  using ensure_parent_cases[OF assms(1)] mkdirs_keeps_files[of s _ s' q] assms(2) by auto

lemma grows_refl: "grows s s"
  by (simp add: grows_def)

lemma grows_trans: "grows s t \<Longrightarrow> grows t u \<Longrightarrow> grows s u"
  by (simp add: grows_def)

lemma exec_read:
  assumes "exec_call wd c s = (s', ok)"
    and "\<forall>p body. c = OutputFile p body \<longrightarrow> path_resolve wd p \<noteq> q"
  shows "read_file s' q = read_file s q"
proof (cases c)
  case (EnsureDir p)
  with assms(1) show ?thesis
    by (auto split: option.splits dest: mkdirs_read)
next
  case (OutputFile p body)
  with assms(2) have ne: "path_resolve wd p \<noteq> q" by simp
  from assms(1) OutputFile show ?thesis
    using ne ensure_parent_read[of wd p s _ q]
    by (auto split: option.splits if_splits simp: read_file_def)
qed

lemma run_read:
  assumes "run_calls wd cs s = (s', ok)"
    and "\<forall>p body. OutputFile p body \<in> set cs \<longrightarrow> path_resolve wd p \<noteq> q"
  shows "read_file s' q = read_file s q"
  using assms
proof (induction cs arbitrary: s)
  case Nil
  then show ?case by simp
next
  case (Cons c cs)
  obtain s1 b where e: "exec_call wd c s = (s1, b)" by (cases "exec_call wd c s") auto
  from Cons.prems(2) have "\<forall>p body. c = OutputFile p body \<longrightarrow> path_resolve wd p \<noteq> q" by simp
  from exec_read[OF e this] have r1: "read_file s1 q = read_file s q" .
  show ?case
  proof (cases b)
    case True
    with Cons.prems(1) e have run: "run_calls wd cs s1 = (s', ok)" by simp
    have rest: "\<forall>p body. OutputFile p body \<in> set cs \<longrightarrow> path_resolve wd p \<noteq> q"
      using Cons.prems(2) by auto
    from Cons.IH[OF run rest] r1 show ?thesis by simp
  next
    case False
    with Cons.prems(1) e have "s' = s1" by simp
    with r1 show ?thesis by simp
  qed
qed

lemma slashes_clean: "CHR 0x5C \<notin> set s \<Longrightarrow> slashes s = s"
  by (induction s) (auto simp: slashes_def)

lemma slashes_no_backslash: "CHR 0x5C \<notin> set (slashes s)"
  by (auto simp: slashes_def)

lemma startsWith_set: "startsWith s pre \<Longrightarrow> set pre \<subseteq> set s"
  unfolding startsWith_def by (metis set_take_subset)

lemma strip_trailing_slash_clean:
  assumes "CHR 0x5C \<notin> set (strip_trailing_slash rule)"
  shows "CHR 0x5C \<notin> set rule"
proof (cases "rule \<noteq> [] \<and> last rule = CHR ''/''")
  case True
  then have "rule = butlast rule @ [CHR ''/'']" by (metis append_butlast_last_id)
  then have "set rule = set (butlast rule) \<union> {CHR ''/''}"
    by (metis Un_insert_right list.simps(15) set_append sup_bot.right_neutral list.set(1))
  moreover from True assms have "CHR 0x5C \<notin> set (butlast rule)"
    by (simp add: strip_trailing_slash_def)
  ultimately show ?thesis by simp
next
  case False
  with assms show ?thesis by (auto simp: strip_trailing_slash_def)
qed

lemma rule_match_is_overridden:
  assumes "rule \<in> set overrides"
    and "slashes x = rule \<or> startsWith (slashes x) (strip_trailing_slash rule @ ''/'')"
  shows "isOverridden overrides (slashes x)"
proof -
  have "CHR 0x5C \<notin> set rule"
    using assms(2)
  proof
    assume "slashes x = rule"
    then show ?thesis using slashes_no_backslash[of x] by simp
  next
    assume "startsWith (slashes x) (strip_trailing_slash rule @ ''/'')"
    then have "set (strip_trailing_slash rule @ ''/'') \<subseteq> set (slashes x)"
      by (rule startsWith_set)
    then have "CHR 0x5C \<notin> set (strip_trailing_slash rule)"
      using slashes_no_backslash[of x] by auto
    then show ?thesis by (rule strip_trailing_slash_clean)
  qed
  then have clean: "slashes rule = rule" by (rule slashes_clean)
  from assms(2) have "slashes x = slashes rule \<or>
      startsWith (slashes x) (strip_trailing_slash (slashes rule) @ ''/'')"
    unfolding clean .
  with assms(1) show ?thesis unfolding isOverridden_def Let_def by (rule bexI[rotated])
qed

lemma file_calls_target:
  assumes "OutputFile p body \<in> set (file_calls wd overrides skillPath fileItem)"
  shows "\<not> isOverridden overrides (slashes (path_relative wd p))"
  using assms by (auto simp: file_calls_def Let_def split: if_splits)

lemma write_calls_target:
  assumes "OutputFile p body \<in> set (write_calls wd items config)"
  shows "\<not> isOverridden (case custom_overrides config of None \<Rightarrow> [] | Some rules \<Rightarrow> rules)
           (slashes (path_relative wd p))"
proof -
  let ?ov = "case custom_overrides config of None \<Rightarrow> [] | Some rules \<Rightarrow> rules"
  from assms obtain agentId where a: "OutputFile p body \<in> set (agent_calls wd ?ov items agentId)"
    by (auto simp: write_calls_def Let_def)
  then obtain basePath item where b: "OutputFile p body \<in> set (skill_calls wd ?ov basePath item)"
    by (auto simp: agent_calls_def Let_def split: option.splits if_splits)
  then obtain skillPath fileItem where
    "OutputFile p body \<in> set (file_calls wd ?ov skillPath fileItem)"
    by (auto simp: skill_calls_def Let_def)
  then show ?thesis by (rule file_calls_target)
qed

text \<open>
  C1. Take any file whose path relative to the working directory, with backslashes
  turned into slashes, matches a configured override rule: it equals the rule, or it
  starts with the rule (one trailing slash stripped) followed by a slash. The writer
  makes no \<open>outputFile\<close> call for that file, and the content on disk at its path is the
  same after the writer has run as before, whatever the collected skills contain.
\<close>

theorem overridden_files_are_left_alone:
  assumes "custom_overrides config = Some overrides"
    and "rule \<in> set overrides"
    and "slashes (relative_to wd file) = rule \<or>
         startsWith (slashes (relative_to wd file)) (strip_trailing_slash rule @ ''/'')"
  shows "(\<forall>p body. OutputFile p body \<in> set (write_calls wd items config) \<longrightarrow>
            path_resolve wd p \<noteq> file) \<and>
         read_file (fst (writeToTargets wd items config fs)) file = read_file fs file"
proof -
  have ov: "isOverridden overrides (slashes (relative_to wd file))"
    using assms(2,3) by (rule rule_match_is_overridden)
  have skip: "\<forall>p body. OutputFile p body \<in> set (write_calls wd items config) \<longrightarrow>
            path_resolve wd p \<noteq> file"
  proof (intro allI impI notI)
    fix p body
    assume "OutputFile p body \<in> set (write_calls wd items config)" and "path_resolve wd p = file"
    from write_calls_target[OF this(1)] assms(1) this(2) ov show False
      by (simp add: path_relative_def)
  qed
  obtain s' ok where r: "run_calls wd (write_calls wd items config) fs = (s', ok)"
    by (cases "run_calls wd (write_calls wd items config) fs") auto
  from run_read[OF r skip] r have "read_file (fst (writeToTargets wd items config fs)) file = read_file fs file"
    by (simp add: writeToTargets_def)
  with skip show ?thesis by (intro conjI)
qed

theorem overridden_files_are_left_alone_witness:
  "slashes (relative_to ''/project'' local_file) = ''.cursor/skills/cat/one/SKILL.md'' \<and>
   read_file local_disk local_file = Some ''local text'' \<and>
   read_file (fst (writeToTargets ''/project'' example_skills override_config local_disk)) local_file
     = Some ''local text'' \<and>
   read_file (fst (writeToTargets ''/project'' example_skills example_config local_disk)) local_file
     = Some ''remote text''"
proof -
  have c: "custom_overrides override_config = Some [''.cursor/skills/cat/'']"
    by (simp add: override_config_def)
  have m: "''.cursor/skills/cat/'' \<in> set [''.cursor/skills/cat/'']" by simp
  have rel: "slashes (relative_to ''/project'' local_file) = ''.cursor/skills/cat/one/SKILL.md''"
    by code_simp
  have h: "slashes (relative_to ''/project'' local_file) = ''.cursor/skills/cat/'' \<or>
         startsWith (slashes (relative_to ''/project'' local_file))
           (strip_trailing_slash ''.cursor/skills/cat/'' @ ''/'')"
    by code_simp
  have before: "read_file local_disk local_file = Some ''local text''"
    by code_simp
  have other: "read_file (fst (writeToTargets ''/project'' example_skills example_config local_disk)) local_file
     = Some ''remote text''"
    by code_simp
  from overridden_files_are_left_alone[OF c m h, of example_skills local_disk] before
  have "read_file (fst (writeToTargets ''/project'' example_skills override_config local_disk)) local_file
     = Some ''local text''" by simp
  with rel before other show ?thesis by (intro conjI)
qed

lemma exec_OutputFile_ok:
  assumes "exec_call wd (OutputFile p body) s = (s1, True)"
  shows "\<exists>s'. ensure_parent wd p s = Some s' \<and> \<not> open_fails wd p s' \<and>
    s1 = s'(path_resolve wd p \<mapsto> File body)"
  using assms by (auto split: option.splits if_splits)

lemma exec_OutputFile_fail:
  assumes "exec_call wd (OutputFile p body) s = (s1, False)"
  shows "(ensure_parent wd p s = None \<and> s1 = s) \<or>
         (ensure_parent wd p s = Some s1 \<and> open_fails wd p s1)"
  using assms by (auto split: option.splits if_splits)

lemma ensure_parent_exists:
  assumes "ensure_parent wd p s = Some s'"
  shows "s' (path_resolve wd (path_dirname p)) \<noteq> None"
  using assms by (auto simp: ensure_parent_def Let_def mkdirs_Some split: if_splits)

lemma ensure_parent_again:
  assumes "t (path_resolve wd (path_dirname p)) \<noteq> None"
  shows "ensure_parent wd p t = Some t"
  using assms by (simp add: ensure_parent_def Let_def)

lemma grows_exists:
  assumes "grows s t" and "s q \<noteq> None"
  shows "t q \<noteq> None"
proof (cases "s q" rule: is_file.cases)
  case (1 body)
  then have "is_file (s q)" by simp
  with assms(1) have "is_file (t q)" by (simp add: grows_def)
  then show ?thesis by (auto simp: is_file_iff)
next
  case "2_1"
  with assms(2) show ?thesis by simp
next
  case "2_2"
  with assms(1) have "t q = Some Dir" by (simp add: grows_def)
  then show ?thesis by simp
qed

lemma exec_grows:
  assumes "exec_call wd c s = (s1, ok)"
  shows "grows s s1"
proof (cases c)
  case (EnsureDir p)
  with assms show ?thesis
    by (auto split: option.splits simp: grows_refl dest: mkdirs_grows)
next
  case (OutputFile p body)
  show ?thesis
  proof (cases ok)
    case True
    with assms OutputFile have "exec_call wd (OutputFile p body) s = (s1, True)"
      by (simp del: exec_call.simps)
    from exec_OutputFile_ok[OF this] obtain s' where s': "ensure_parent wd p s = Some s'"
      "\<not> open_fails wd p s'" "s1 = s'(path_resolve wd p \<mapsto> File body)"
      by blast
    from s'(2) have "s' (path_resolve wd p) \<noteq> Some Dir" by (simp add: open_fails_def Let_def)
    then have "grows s' s1" unfolding s'(3) by (auto simp: grows_def)
    with ensure_parent_grows[OF s'(1)] show ?thesis by (rule grows_trans)
  next
    case False
    with assms OutputFile have "exec_call wd (OutputFile p body) s = (s1, False)"
      by (simp del: exec_call.simps)
    from exec_OutputFile_fail[OF this]
    show ?thesis by (auto simp: grows_refl dest: ensure_parent_grows)
  qed
qed

lemma run_grows:
  assumes "run_calls wd cs s = (F, b)"
  shows "grows s F"
  using assms
proof (induction cs arbitrary: s)
  case Nil
  then show ?case by (simp add: grows_refl)
next
  case (Cons c cs)
  obtain s1 ok where e: "exec_call wd c s = (s1, ok)" by (cases "exec_call wd c s") auto
  show ?case
  proof (cases ok)
    case True
    with Cons.prems e have "run_calls wd cs s1 = (F, b)" by simp
    from Cons.IH[OF this] exec_grows[OF e] show ?thesis by (blast intro: grows_trans)
  next
    case False
    with Cons.prems e have "F = s1" by simp
    with exec_grows[OF e] show ?thesis by simp
  qed
qed

lemma exec_fail_again:
  assumes "exec_call wd c s = (s1, False)"
  shows "exec_call wd c s1 = (s1, False)"
proof (cases c)
  case (EnsureDir p)
  with assms show ?thesis by (auto split: option.splits)
next
  case (OutputFile p body)
  from assms OutputFile have "exec_call wd (OutputFile p body) s = (s1, False)"
    by (simp del: exec_call.simps)
  from exec_OutputFile_fail[OF this]
  consider "ensure_parent wd p s = None" "s1 = s"
    | "ensure_parent wd p s = Some s1" "open_fails wd p s1" by auto
  then show ?thesis
  proof cases
    case 1
    with OutputFile show ?thesis by simp
  next
    case 2
    from ensure_parent_again[of s1 wd p, OF ensure_parent_exists[OF 2(1)]]
    have "ensure_parent wd p s1 = Some s1" .
    with 2(2) OutputFile show ?thesis by simp
  qed
qed

lemma exec_ok_again:
  assumes "exec_call wd c s = (s1, True)" and "grows s1 t"
  shows "exec_call wd c t =
           (case c of EnsureDir p \<Rightarrow> t | OutputFile p body \<Rightarrow> t(path_resolve wd p \<mapsto> File body), True)"
proof (cases c)
  case (EnsureDir p)
  let ?d = "path_resolve wd p"
  from assms(1) EnsureDir have m: "mkdirs s ?d = Some s1" by (auto split: option.splits)
  then have "\<forall>a. prefix a ?d \<longrightarrow> s1 a = Some Dir" unfolding mkdirs_Some by simp
  with assms(2) have dirs: "\<forall>a. prefix a ?d \<longrightarrow> t a = Some Dir" by (auto simp: grows_def)
  then have "(\<lambda>q. if prefix q ?d then Some Dir else t q) = t" by auto
  moreover from dirs have "\<forall>a. prefix a ?d \<longrightarrow> \<not> is_file (t a)" by auto
  ultimately have "mkdirs t ?d = Some t" unfolding mkdirs_Some by simp
  with EnsureDir show ?thesis by simp
next
  case (OutputFile p body)
  let ?file = "path_resolve wd p"
  let ?dir = "path_resolve wd (path_dirname p)"
  from assms(1) OutputFile have "exec_call wd (OutputFile p body) s = (s1, True)"
    by (simp del: exec_call.simps)
  from exec_OutputFile_ok[OF this] obtain s' where s': "ensure_parent wd p s = Some s'"
    "\<not> open_fails wd p s'" "s1 = s'(?file \<mapsto> File body)"
    by blast
  from s'(2) have chk: "\<not> (p \<noteq> [] \<and> last p = CHR ''/'')" "?file \<noteq> []"
    "s' ?file \<noteq> Some Dir" "s' (butlast ?file) = Some Dir"
    by (simp_all add: open_fails_def Let_def)
  from chk(2) have ne: "butlast ?file \<noteq> ?file"
    by (metis append_butlast_last_id append_self_conv list.distinct(1))
  have "s1 ?dir \<noteq> None" using ensure_parent_exists[OF s'(1)] unfolding s'(3) by simp
  with assms(2) have "t ?dir \<noteq> None" by (rule grows_exists)
  then have ep: "ensure_parent wd p t = Some t" by (rule ensure_parent_again[of t wd p])
  have "is_file (s1 ?file)" unfolding s'(3) by simp
  with assms(2) have "is_file (t ?file)" by (simp add: grows_def)
  then have a: "t ?file \<noteq> Some Dir" by auto
  have "s1 (butlast ?file) = Some Dir" unfolding s'(3) using chk(4) ne by simp
  with assms(2) have b: "t (butlast ?file) = Some Dir" by (simp add: grows_def)
  from a b chk(1,2) have "\<not> open_fails wd p t" by (simp add: open_fails_def Let_def)
  with ep OutputFile show ?thesis by simp
qed

lemma exec_keeps:
  assumes "exec_call wd c s = (s1, ok)" and "is_file (s q)"
    and "\<not> (ok \<and> (\<exists>p body. c = OutputFile p body \<and> path_resolve wd p = q))"
  shows "s1 q = s q"
proof (cases c)
  case (EnsureDir p)
  with assms(1,2) show ?thesis
    by (auto split: option.splits dest: mkdirs_keeps_files)
next
  case (OutputFile p body)
  show ?thesis
  proof (cases ok)
    case True
    with assms(1) OutputFile have "exec_call wd (OutputFile p body) s = (s1, True)"
      by (simp del: exec_call.simps)
    from exec_OutputFile_ok[OF this] obtain s' where s': "ensure_parent wd p s = Some s'"
      "s1 = s'(path_resolve wd p \<mapsto> File body)"
      by blast
    from True assms(3) OutputFile have "path_resolve wd p \<noteq> q" by simp
    with s'(2) ensure_parent_keeps_files[OF s'(1) assms(2)] show ?thesis by simp
  next
    case False
    with assms(1) OutputFile have "exec_call wd (OutputFile p body) s = (s1, False)"
      by (simp del: exec_call.simps)
    from exec_OutputFile_fail[OF this]
    have "s1 = s \<or> ensure_parent wd p s = Some s1" by auto
    with ensure_parent_keeps_files[of wd p s s1 q] assms(2) show ?thesis by auto
  qed
qed

lemma run_keeps:
  assumes "run_calls wd cs s = (F, b)" and "is_file (s q)" and "q \<notin> written wd cs s"
  shows "F q = s q"
  using assms
proof (induction cs arbitrary: s)
  case Nil
  then show ?case by simp
next
  case (Cons c cs)
  obtain s1 ok where e: "exec_call wd c s = (s1, ok)" by (cases "exec_call wd c s") auto
  have "\<not> (ok \<and> (\<exists>p body. c = OutputFile p body \<and> path_resolve wd p = q))"
    using Cons.prems(3) e by (auto split: fs_call.splits)
  from exec_keeps[OF e Cons.prems(2) this] have k: "s1 q = s q" .
  show ?case
  proof (cases ok)
    case True
    with Cons.prems(1) e have run: "run_calls wd cs s1 = (F, b)" by simp
    from True Cons.prems(3) e have "q \<notin> written wd cs s1" by simp
    from Cons.IH[OF run _ this] k Cons.prems(2) show ?thesis by simp
  next
    case False
    with Cons.prems(1) e have "F = s1" by simp
    with k show ?thesis by simp
  qed
qed

lemma exec_OutputFile_writes:
  assumes "exec_call wd (OutputFile p body) s = (s1, True)"
  shows "s1 (path_resolve wd p) = Some (File body)"
  using exec_OutputFile_ok[OF assms] by auto

lemma rerun:
  assumes "run_calls wd cs s = (F, b)"
    and "grows t F" and "grows F t"
    and "\<forall>q. t q \<noteq> F q \<longrightarrow> q \<in> written wd cs s"
  shows "run_calls wd cs t = (F, b)"
  using assms
proof (induction cs arbitrary: s t)
  case Nil
  then have "t = F" by auto
  with Nil show ?case by simp
next
  case (Cons c cs)
  obtain s1 ok where e: "exec_call wd c s = (s1, ok)" by (cases "exec_call wd c s") auto
  show ?case
  proof (cases ok)
    case False
    with Cons.prems(1) e have F: "F = s1" "b = False" by simp_all
    from False e Cons.prems(4) have "t = F" by auto
    moreover from e False have "exec_call wd c s1 = (s1, False)"
      by (intro exec_fail_again) simp
    ultimately show ?thesis using F by simp
  next
    case True
    with Cons.prems(1) e have run: "run_calls wd cs s1 = (F, b)" by simp
    from e True have e': "exec_call wd c s = (s1, True)" by simp
    have "grows s1 t" using run_grows[OF run] Cons.prems(3) by (rule grows_trans)
    note again = exec_ok_again[OF e' this]
    show ?thesis
    proof (cases c)
      case (EnsureDir p)
      with again have "exec_call wd c t = (t, True)" by simp
      moreover have "\<forall>q. t q \<noteq> F q \<longrightarrow> q \<in> written wd cs s1"
        using Cons.prems(4) e True EnsureDir by simp
      ultimately show ?thesis
        using Cons.IH[OF run Cons.prems(2,3)] by simp
    next
      case (OutputFile p body)
      let ?file = "path_resolve wd p"
      let ?t1 = "t(?file \<mapsto> File body)"
      from again OutputFile have x: "exec_call wd c t = (?t1, True)" by simp
      from e' OutputFile have "exec_call wd (OutputFile p body) s = (s1, True)"
        by (simp del: exec_call.simps)
      then have w: "s1 ?file = Some (File body)" by (rule exec_OutputFile_writes)
      then have "is_file (s1 ?file)" by simp
      with run_grows[OF run] have fF: "is_file (F ?file)" by (simp add: grows_def)
      have g1: "grows ?t1 F" using Cons.prems(2) fF by (auto simp: grows_def)
      have g2: "grows F ?t1" using Cons.prems(3) fF by (auto simp: grows_def is_file_iff)
      have d: "\<forall>q. ?t1 q \<noteq> F q \<longrightarrow> q \<in> written wd cs s1"
      proof (intro allI impI)
        fix q
        assume ne: "?t1 q \<noteq> F q"
        show "q \<in> written wd cs s1"
        proof (cases "q = ?file")
          case True
          show ?thesis
          proof (rule ccontr)
            assume "q \<notin> written wd cs s1"
            with True have "?file \<notin> written wd cs s1" by simp
            from run_keeps[OF run \<open>is_file (s1 ?file)\<close> this] w have "F ?file = Some (File body)"
              by simp
            with ne True show False by simp
          qed
        next
          case False
          with ne have "t q \<noteq> F q" by simp
          with Cons.prems(4) have "q \<in> written wd (c # cs) s" by blast
          with e \<open>ok\<close> OutputFile False show ?thesis by simp
        qed
      qed
      have ih: "run_calls wd cs ?t1 = (F, b)" by (rule Cons.IH[OF run g1 g2 d])
      then show ?thesis by (simp only: run_calls.simps x prod.case if_True)
    qed
  qed
qed

lemma run_calls_twice:
  "run_calls wd cs (fst (run_calls wd cs s)) = run_calls wd cs s"
proof -
  obtain F b where r: "run_calls wd cs s = (F, b)" by (cases "run_calls wd cs s") auto
  have "run_calls wd cs F = (F, b)"
    by (rule rerun[OF r grows_refl grows_refl]) simp
  with r show ?thesis by simp
qed

text \<open>
  C8. Running the writer on the disk that a first run leaves gives that disk again, and
  ends the same way: the run makes the same calls with the same content, no file or
  directory appears or disappears, and a call that threw in the first run throws in
  the second.
\<close>

theorem writing_twice_is_writing_once:
  "writeToTargets wd items config (fst (writeToTargets wd items config fs))
     = writeToTargets wd items config fs"
  unfolding writeToTargets_def by (rule run_calls_twice)

theorem writing_twice_is_writing_once_witness:
  "writeToTargets ''/project'' example_skills example_config
      (fst (writeToTargets ''/project'' example_skills example_config local_disk))
     = writeToTargets ''/project'' example_skills example_config local_disk \<and>
   read_file (fst (writeToTargets ''/project'' example_skills example_config local_disk)) local_file
     = Some ''remote text''"
proof -
  have "read_file (fst (writeToTargets ''/project'' example_skills example_config local_disk)) local_file
     = Some ''remote text''"
    by code_simp
  with writing_twice_is_writing_once[of "''/project''" example_skills example_config local_disk]
  show ?thesis by (intro conjI)
qed

lemma find_by_key:
  "distinct (map f xs) \<Longrightarrow> x \<in> set xs \<Longrightarrow> find (\<lambda>a. f a = f x) xs = Some x"
  by (induction xs) (auto simp: image_iff)

lemma supported_agents_distinct: "distinct (map agent_id SUPPORTED_AGENTS)"
  by (simp add: SUPPORTED_AGENTS_def)

lemma supported_agents_paths: "tool \<in> set SUPPORTED_AGENTS \<Longrightarrow> agent_path tool \<noteq> []"
  by (auto simp: SUPPORTED_AGENTS_def)

lemma known_agent_calls:
  assumes "tool \<in> set SUPPORTED_AGENTS"
  shows "agent_calls wd overrides items (agent_id tool) =
           EnsureDir (agent_path tool) # concat (map (skill_calls wd overrides (agent_path tool)) items)"
  using find_by_key[OF supported_agents_distinct assms] supported_agents_paths[OF assms]
  by (simp add: agent_calls_def Let_def)

lemma write_calls_sources:
  assumes "OutputFile p body \<in> set (write_calls wd items config)"
  shows "\<exists>tool \<in> set SUPPORTED_AGENTS. \<exists>item \<in> set items. \<exists>fileItem \<in> set (files item).
           p = path_join [path_join [agent_path tool, category item, skill item], name fileItem] \<and>
           body = content fileItem"
proof -
  let ?ov = "case custom_overrides config of None \<Rightarrow> [] | Some rules \<Rightarrow> rules"
  from assms obtain agentId where a: "OutputFile p body \<in> set (agent_calls wd ?ov items agentId)"
    by (auto simp: write_calls_def Let_def)
  obtain tool where t: "find (\<lambda>a. agent_id a = agentId) SUPPORTED_AGENTS = Some tool"
    using a by (cases "find (\<lambda>a. agent_id a = agentId) SUPPORTED_AGENTS")
      (simp_all add: agent_calls_def)
  then have tin: "tool \<in> set SUPPORTED_AGENTS" unfolding find_Some_iff by auto
  from a t obtain item where i: "item \<in> set items"
    "OutputFile p body \<in> set (skill_calls wd ?ov (agent_path tool) item)"
    by (auto simp: agent_calls_def Let_def split: if_splits)
  then obtain fileItem where f: "fileItem \<in> set (files item)"
    "OutputFile p body \<in> set (file_calls wd ?ov
        (path_join [agent_path tool, category item, skill item]) fileItem)"
    by (auto simp: skill_calls_def Let_def)
  from f(2) have e: "p = path_join [path_join [agent_path tool, category item, skill item], name fileItem]"
    "body = content fileItem"
    by (auto simp: file_calls_def Let_def split: if_splits)
  show ?thesis
    by (rule bexI[OF _ tin], rule bexI[OF _ i(1)], rule bexI[OF _ f(1)]) (simp add: e)
qed

text \<open>
  C3, as the code has it. When the configuration has no \<open>agents\<close> entry the writer writes
  as if all supported agents were listed: for each of them in turn it ensures the base
  directory and writes every collected skill below it. An \<open>agents\<close> list that is present
  and empty is not replaced: the writer then makes no call and the disk stays as it is.
\<close>

theorem absent_agents_mean_all_tools:
  "writeToTargets wd items (config\<lparr>agents := None\<rparr>) fs
     = writeToTargets wd items (config\<lparr>agents := Some (map agent_id SUPPORTED_AGENTS)\<rparr>) fs \<and>
   write_calls wd items (config\<lparr>agents := None\<rparr>)
     = concat (map (\<lambda>tool. EnsureDir (agent_path tool) #
                      concat (map (skill_calls wd
                         (case custom_overrides config of None \<Rightarrow> [] | Some rules \<Rightarrow> rules)
                         (agent_path tool)) items))
               SUPPORTED_AGENTS) \<and>
   writeToTargets wd items (config\<lparr>agents := Some []\<rparr>) fs = (fs, True)"
proof (intro conjI)
  show "writeToTargets wd items (config\<lparr>agents := None\<rparr>) fs
     = writeToTargets wd items (config\<lparr>agents := Some (map agent_id SUPPORTED_AGENTS)\<rparr>) fs"
    by (simp add: writeToTargets_def write_calls_def)
next
  let ?ov = "case custom_overrides config of None \<Rightarrow> [] | Some rules \<Rightarrow> rules"
  let ?all = "\<lambda>tool. EnsureDir (agent_path tool) #
                      concat (map (skill_calls wd ?ov (agent_path tool)) items)"
  have m: "map (\<lambda>tool. agent_calls wd ?ov items (agent_id tool)) SUPPORTED_AGENTS
        = map ?all SUPPORTED_AGENTS"
    by (rule map_cong[OF refl]) (rule known_agent_calls)
  have "write_calls wd items (config\<lparr>agents := None\<rparr>)
          = concat (map (agent_calls wd ?ov items) (map agent_id SUPPORTED_AGENTS))"
    by (simp add: write_calls_def)
  also have "\<dots> = concat (map (\<lambda>tool. agent_calls wd ?ov items (agent_id tool)) SUPPORTED_AGENTS)"
    by (simp only: map_map comp_def)
  also have "\<dots> = concat (map ?all SUPPORTED_AGENTS)"
    by (simp only: m)
  finally show "write_calls wd items (config\<lparr>agents := None\<rparr>)
     = concat (map (\<lambda>tool. EnsureDir (agent_path tool) #
                      concat (map (skill_calls wd ?ov (agent_path tool)) items))
               SUPPORTED_AGENTS)" .
next
  show "writeToTargets wd items (config\<lparr>agents := Some []\<rparr>) fs = (fs, True)"
    by (simp add: writeToTargets_def write_calls_def)
qed

theorem absent_agents_mean_all_tools_witness:
  "writeToTargets ''/project'' example_skills (example_config\<lparr>agents := None\<rparr>) Map.empty
     = writeToTargets ''/project'' example_skills
         (example_config\<lparr>agents := Some (map agent_id SUPPORTED_AGENTS)\<rparr>) Map.empty \<and>
   writeToTargets ''/project'' example_skills (example_config\<lparr>agents := Some []\<rparr>) Map.empty
     = (Map.empty, True)"
proof -
  note inst = absent_agents_mean_all_tools[of "''/project''" example_skills example_config Map.empty]
  from conjunct1[OF inst] conjunct2[OF conjunct2[OF inst]] show ?thesis by (intro conjI)
qed

theorem empty_agents_write_nothing:
  "read_file (fst (writeToTargets ''/project'' example_skills (example_config\<lparr>agents := Some []\<rparr>) Map.empty))
     [''project'', ''.cursor'', ''skills'', ''cat'', ''one'', ''SKILL.md''] = None \<and>
   read_file (fst (writeToTargets ''/project'' example_skills
        (example_config\<lparr>agents := Some (map agent_id SUPPORTED_AGENTS)\<rparr>) Map.empty))
     [''project'', ''.cursor'', ''skills'', ''cat'', ''one'', ''SKILL.md''] = Some ''remote text''"
  by code_simp

section \<open>Properties of the sync command\<close>

text \<open>
  C9, as the code has it. Without a configuration file \<open>run\<close> prints that the file was
  not found and that \<open>init\<close> is to be run first, makes no request, leaves the disk and the
  configuration alone, and returns. The exit status is zero then, as it is after every
  run.
\<close>

theorem missing_configuration_aborts:
  "run env Missing fs =
     \<lparr>printed = [Config_not_found, Run_init_first], requested = [], disk = fs,
      config_saved = None, exit_status = 0\<rparr> \<and>
   exit_status (run env file fs) = 0"
  by (simp add: run_def Let_def split: config_file.splits prod.splits)

theorem missing_configuration_aborts_witness:
  "run example_environment Missing Map.empty =
     \<lparr>printed = [Config_not_found, Run_init_first], requested = [], disk = Map.empty,
      config_saved = None, exit_status = 0\<rparr> \<and>
   exit_status (run example_environment (Loaded example_config) Map.empty) = 0"
  by (rule missing_configuration_aborts)

theorem missing_configuration_exits_zero:
  "exit_status (run example_environment Missing Map.empty) = 0"
  by (simp add: run_def)

end
